theory Spec2Isabelle
  imports Complex_Main "HOL-Library.Multiset" "HOL-Library.Char_ord" "HOL-Library.List_Lexorder"
begin

section \<open>JavaScript values used by git-arr.js\<close>

text \<open>
  A JavaScript number is a double: a real number, one of the two infinities, or NaN (the
  sign of zero is not modelled). A string is a list of UTF-16 code units. Text taken
  from the page (the markup inside an element, the text of a cell, the value of a data
  attribute) is such a list; identifiers and literals of the script are written as
  \<open>string\<close> and \<open>units_of\<close> gives their code units.
\<close>

datatype jsnum = NaN | NegInf | Num real | PosInf

type_synonym utf16 = "nat list"

datatype jsval = JUndefined | JNull | JBool bool | JNumber jsnum | JString utf16

definition units_of :: "string \<Rightarrow> utf16" where
  "units_of s = map of_char s"

text \<open>
  What belongs to the host, not to git-arr.js, is a parameter of the model:
  \<^item> \<open>StringToNumber\<close>, the conversion that the operators \<open><\<close>, \<open>>\<close> and \<open>-\<close> apply to a
    string operand, and \<open>parseFloat\<close>, the global function of that name;
  \<^item> \<open>round64\<close>, the rounding of a real number to the nearest double: every arithmetic
    operation on doubles returns the exact result rounded;
  \<^item> \<open>lower_beyond_latin1\<close>, what \<open>toLowerCase\<close> returns for a string with a code unit
    from 256 on (the Unicode case mapping, which depends on context and may change the
    length of the string).
\<close>

record host =
  StringToNumber :: "utf16 \<Rightarrow> jsnum"
  parseFloat :: "utf16 \<Rightarrow> jsnum"
  round64 :: "real \<Rightarrow> real"
  lower_beyond_latin1 :: "utf16 \<Rightarrow> utf16"

fun ToNumber :: "host \<Rightarrow> jsval \<Rightarrow> jsnum" where
  "ToNumber H JUndefined = NaN"
| "ToNumber H JNull = Num 0"
| "ToNumber H (JBool b) = Num (if b then 1 else 0)"
| "ToNumber H (JNumber n) = n"
| "ToNumber H (JString s) = StringToNumber H s"

text \<open>
  The double of an exact result: the result rounded, or an infinity when the rounded
  result is beyond the largest double.
\<close>

definition MAX_VALUE :: real where
  "MAX_VALUE = (2 ^ 53 - 1) * 2 ^ 971"

definition to_double :: "host \<Rightarrow> real \<Rightarrow> jsnum" where
  "to_double H x =
     (let y = round64 H x
      in if MAX_VALUE < y then PosInf else if y < - MAX_VALUE then NegInf else Num y)"

text \<open>\<open>a - b\<close> on numbers.\<close>

fun js_sub :: "host \<Rightarrow> jsnum \<Rightarrow> jsnum \<Rightarrow> jsnum" where
  "js_sub H NaN b = NaN"
| "js_sub H a NaN = NaN"
| "js_sub H (Num x) (Num y) = to_double H (x - y)"
| "js_sub H (Num x) PosInf = NegInf"
| "js_sub H (Num x) NegInf = PosInf"
| "js_sub H PosInf PosInf = NaN"
| "js_sub H PosInf b = PosInf"
| "js_sub H NegInf NegInf = NaN"
| "js_sub H NegInf b = NegInf"

text \<open>\<open>a / b\<close> on numbers; a zero divisor is taken as \<open>+0\<close>.\<close>

fun js_div :: "host \<Rightarrow> jsnum \<Rightarrow> jsnum \<Rightarrow> jsnum" where
  "js_div H NaN b = NaN"
| "js_div H a NaN = NaN"
| "js_div H (Num x) (Num y) =
     (if y = 0 then (if x = 0 then NaN else if 0 < x then PosInf else NegInf)
      else to_double H (x / y))"
| "js_div H (Num x) PosInf = Num 0"
| "js_div H (Num x) NegInf = Num 0"
| "js_div H PosInf (Num y) = (if 0 \<le> y then PosInf else NegInf)"
| "js_div H NegInf (Num y) = (if 0 \<le> y then NegInf else PosInf)"
| "js_div H PosInf b = NaN"
| "js_div H NegInf b = NaN"

text \<open>\<open>Math.floor\<close> is exact: the floor of a double is a double.\<close>

fun Math_floor :: "jsnum \<Rightarrow> jsnum" where
  "Math_floor (Num x) = Num (of_int \<lfloor>x\<rfloor>)"
| "Math_floor a = a"

text \<open>\<open>a < b\<close> on numbers: false as soon as one side is NaN.\<close>

fun js_lt :: "jsnum \<Rightarrow> jsnum \<Rightarrow> bool" where
  "js_lt NaN b = False"
| "js_lt a NaN = False"
| "js_lt (Num x) (Num y) = (x < y)"
| "js_lt NegInf NegInf = False"
| "js_lt NegInf b = True"
| "js_lt a PosInf = (a \<noteq> PosInf)"
| "js_lt a NegInf = False"
| "js_lt PosInf b = False"

definition js_gt :: "jsnum \<Rightarrow> jsnum \<Rightarrow> bool" where
  "js_gt a b = js_lt b a"

text \<open>
  What the proofs about arithmetic use of the rounding to the nearest double: it is
  monotone, it leaves the integers up to \<open>2^53\<close> as they are, and between \<open>2^-53\<close>
  and \<open>2^53\<close> (all normal numbers) its relative error is at most \<open>2^-53\<close>.
\<close>

definition ieee_rounding :: "host \<Rightarrow> bool" where
  "ieee_rounding H =
     ((\<forall>x y. x \<le> y \<longrightarrow> round64 H x \<le> round64 H y) \<and>
      (\<forall>n :: int. \<bar>n\<bar> \<le> 2 ^ 53 \<longrightarrow> round64 H (of_int n) = of_int n) \<and>
      (\<forall>x. 1 / 2 ^ 53 \<le> \<bar>x\<bar> \<and> \<bar>x\<bar> \<le> 2 ^ 53 \<longrightarrow> \<bar>round64 H x - x\<bar> \<le> \<bar>x\<bar> / 2 ^ 53))"

subsection \<open>Numbers to strings\<close>

fun nat_toString :: "nat \<Rightarrow> string" where
  "nat_toString n =
     (if n < 10 then [''0123456789'' ! n]
      else nat_toString (n div 10) @ [''0123456789'' ! (n mod 10)])"

declare nat_toString.simps [simp del]

definition int_toString :: "int \<Rightarrow> string" where
  "int_toString i = (if i < 0 then ''-'' @ nat_toString (nat (- i)) else nat_toString (nat i))"

text \<open>
  The string of a number, as string concatenation produces it. The program prints only
  results of \<open>Math.floor\<close>, so a finite number is printed as the integer it is; the
  host prints an integer of magnitude below \<open>10^21\<close> with all its decimal digits.
\<close>

fun Number_toString :: "jsnum \<Rightarrow> string" where
  "Number_toString NaN = ''NaN''"
| "Number_toString PosInf = ''Infinity''"
| "Number_toString NegInf = ''-Infinity''"
| "Number_toString (Num x) = int_toString \<lfloor>x\<rfloor>"

section \<open>The clock\<close>

text \<open>
  \<open>new Date().getTime()\<close> reads the wall clock in whole milliseconds. A clock is the
  sequence of the readings still to come; \<open>now()\<close> takes the first, divides it by 1000
  as doubles are divided, and leaves the rest. The time value of a date is at most
  8.64e15 milliseconds from the epoch.
\<close>

type_synonym clock = "nat \<Rightarrow> int"

definition now :: "host \<Rightarrow> clock \<Rightarrow> jsnum \<times> clock" where
  "now H c = (js_div H (Num (of_int (c 0))) (Num 1000), \<lambda>n. c (Suc n))"

definition time_value :: "int \<Rightarrow> bool" where
  "time_value ms = (\<bar>ms\<bar> \<le> 8640000000000000)"

section \<open>how_long_ago\<close>

definition how_long_ago :: "host \<Rightarrow> jsval \<Rightarrow> clock \<Rightarrow> string \<times> clock" where
  "how_long_ago H timestamp c =
     (if js_lt (ToNumber H timestamp) (Num 0) then (''never'', c)
      else
        let (t, c') = now H c;
            seconds = Math_floor (js_sub H t (ToNumber H timestamp));
            interval = Math_floor (js_div H seconds (Num (365 * 24 * 60 * 60)))
        in if js_gt interval (Num 1) then (Number_toString interval @ '' years ago'', c')
        else
          let interval = Math_floor (js_div H seconds (Num (30 * 24 * 60 * 60)))
          in if js_gt interval (Num 1) then (Number_toString interval @ '' months ago'', c')
          else
            let interval = Math_floor (js_div H seconds (Num (24 * 60 * 60)))
            in if js_gt interval (Num 1) then (Number_toString interval @ '' days ago'', c')
            else
              let interval = Math_floor (js_div H seconds (Num (60 * 60)))
              in if js_gt interval (Num 1) then (Number_toString interval @ '' hours ago'', c')
              else
                let interval = Math_floor (js_div H seconds (Num 60))
                in if js_gt interval (Num 1)
                   then (Number_toString interval @ '' minutes ago'', c')
                   else if js_gt seconds (Num 1)
                   then (Number_toString (Math_floor seconds) @ '' seconds ago'', c')
                   else (''about now'', c'))"

text \<open>
  The policy of the age formatter in the words of its specification, on the whole number
  of seconds elapsed: the first tier whose interval exceeds one whole unit wins.
\<close>

definition cascade_spec :: "int \<Rightarrow> string" where
  "cascade_spec seconds =
     (if \<lfloor>real_of_int seconds / 31536000\<rfloor> > 1
      then int_toString \<lfloor>real_of_int seconds / 31536000\<rfloor> @ '' years ago''
      else if \<lfloor>real_of_int seconds / 2592000\<rfloor> > 1
      then int_toString \<lfloor>real_of_int seconds / 2592000\<rfloor> @ '' months ago''
      else if \<lfloor>real_of_int seconds / 86400\<rfloor> > 1
      then int_toString \<lfloor>real_of_int seconds / 86400\<rfloor> @ '' days ago''
      else if \<lfloor>real_of_int seconds / 3600\<rfloor> > 1
      then int_toString \<lfloor>real_of_int seconds / 3600\<rfloor> @ '' hours ago''
      else if \<lfloor>real_of_int seconds / 60\<rfloor> > 1
      then int_toString \<lfloor>real_of_int seconds / 60\<rfloor> @ '' minutes ago''
      else if seconds > 1 then int_toString seconds @ '' seconds ago''
      else ''about now'')"

section \<open>Elements of the page\<close>

text \<open>
  The elements of the document in document order, each with the properties the program
  reads or writes: the \<open>id\<close> attribute (empty when the element has none), the
  \<open>class\<close> attribute, the markup inside the element and the inline \<open>display\<close>
  style. Age-marked elements are taken not to contain one another.
\<close>

record element =
  ident :: string
  className :: string
  innerHTML :: utf16
  display :: string

datatype error = TypeError

text \<open>
  The classes of an element are the tokens of its \<open>class\<close> attribute, separated by
  ASCII whitespace.
\<close>

definition ascii_whitespace :: "char \<Rightarrow> bool" where
  "ascii_whitespace ch = (ch \<in> set [CHR '' '', CHR 0x09, CHR 0x0A, CHR 0x0C, CHR 0x0D])"

fun class_tokens :: "string \<Rightarrow> string \<Rightarrow> string list" where
  "class_tokens [] cur = (if cur = [] then [] else [cur])"
| "class_tokens (ch # rest) cur =
     (if ascii_whitespace ch
      then (if cur = [] then class_tokens rest [] else cur # class_tokens rest [])
      else class_tokens rest (cur @ [ch]))"

definition classes :: "element \<Rightarrow> string list" where
  "classes e = class_tokens (className e) []"

definition has_class :: "string \<Rightarrow> element \<Rightarrow> bool" where
  "has_class name e = (name \<in> set (classes e))"

section \<open>replace_timestamps\<close>

text \<open>The body of the loop, for one age-marked element.\<close>

definition replace_timestamp :: "host \<Rightarrow> element \<Rightarrow> clock \<Rightarrow> element \<times> clock" where
  "replace_timestamp H e c =
     (let timestamp = JString (innerHTML e);
          (text, c1) = how_long_ago H timestamp c;
          e1 = e\<lparr>innerHTML := units_of text, display := ''inline''\<rparr>
      in if js_gt (ToNumber H timestamp) (Num 0)
         then
           let (t, c2) = now H c1;
               age = js_sub H t (ToNumber H timestamp)
           in if js_lt age (Num (2 * 60 * 60))
              then (e1\<lparr>className := className e1 @ '' age-band0''\<rparr>, c2)
              else if js_lt age (Num (3 * 24 * 60 * 60))
              then (e1\<lparr>className := className e1 @ '' age-band1''\<rparr>, c2)
              else if js_lt age (Num (30 * 24 * 60 * 60))
              then (e1\<lparr>className := className e1 @ '' age-band2''\<rparr>, c2)
              else (e1, c2)
         else (e1, c1))"

text \<open>
  The loop over \<open>document.getElementsByClassName("age")\<close>: the elements of the page in
  document order, those of class \<open>age\<close> rewritten, the clock handed from one to the next.
\<close>

fun replace_timestamps :: "host \<Rightarrow> element list \<Rightarrow> clock \<Rightarrow> element list \<times> clock" where
  "replace_timestamps H [] c = ([], c)"
| "replace_timestamps H (e # es) c =
     (if has_class ''age'' e
      then
        let (e', c') = replace_timestamp H e c;
            (es', c'') = replace_timestamps H es c'
        in (e' # es', c'')
      else
        let (es', c') = replace_timestamps H es c
        in (e # es', c'))"

text \<open>
  The band of an age in the words of the specification: the class appended, if any.
\<close>

definition band_class :: "jsnum \<Rightarrow> string option" where
  "band_class age =
     (if js_lt age (Num 7200) then Some ''age-band0''
      else if js_lt age (Num 259200) then Some ''age-band1''
      else if js_lt age (Num 2592000) then Some ''age-band2''
      else None)"

definition sample_age_element :: element where
  "sample_age_element =
     \<lparr>ident = [], className = ''age'', innerHTML = units_of ''1699992801'', display = ''none''\<rparr>"

section \<open>toggle\<close>

text \<open>
  \<open>document.getElementById\<close>: the position of the first element with the given
  identifier, or nothing (\<open>null\<close>). An empty identifier finds nothing.
\<close>

fun getElementById :: "string \<Rightarrow> element list \<Rightarrow> nat option" where
  "getElementById i [] = None"
| "getElementById i (e # es) =
     (if ident e = i \<and> i \<noteq> [] then Some 0 else map_option Suc (getElementById i es))"

text \<open>
  A procedure on the page returns the exception it threw, if any, and the page as it
  left it. Reading \<open>e.style\<close> of \<open>null\<close> throws a TypeError.
\<close>

definition toggle :: "string \<Rightarrow> element list \<Rightarrow> error option \<times> element list" where
  "toggle i page =
     (case getElementById i page of
        None \<Rightarrow> (Some TypeError, page)
      | Some k \<Rightarrow>
          let e = page ! k
          in if display e = '''' then (None, page[k := e\<lparr>display := ''none''\<rparr>])
             else if display e = ''none'' then (None, page[k := e\<lparr>display := ''''\<rparr>])
             else (None, page))"

definition sample_details_element :: element where
  "sample_details_element =
     \<lparr>ident = ''details'', className = ''box'', innerHTML = units_of ''text'', display = []\<rparr>"

section \<open>The table of repositories\<close>

text \<open>
  The operators \<open><\<close> and \<open>>\<close> on two strings compare them lexicographically by code
  unit: this is the order of lists of numbers here. \<open>trim\<close> removes white space and
  line terminators at both ends. \<open>toLowerCase\<close> maps each upper-case letter of a
  Latin-1 string to its lower-case letter, 32 code units above it; on other strings it
  is the host's Unicode mapping.
\<close>

definition is_whitespace :: "nat \<Rightarrow> bool" where
  "is_whitespace u =
     (u \<in> {9, 10, 11, 12, 13, 32, 160, 5760, 8232, 8233, 8239, 8287, 12288, 65279}
      \<or> (8192 \<le> u \<and> u \<le> 8202))"

definition trim :: "utf16 \<Rightarrow> utf16" where
  "trim s = rev (dropWhile is_whitespace (rev (dropWhile is_whitespace s)))"

definition is_upper :: "nat \<Rightarrow> bool" where
  "is_upper u = ((65 \<le> u \<and> u \<le> 90) \<or> (192 \<le> u \<and> u \<le> 214) \<or> (216 \<le> u \<and> u \<le> 222))"

definition lower_unit :: "nat \<Rightarrow> nat" where
  "lower_unit u = (if is_upper u then u + 32 else u)"

definition latin1 :: "utf16 \<Rightarrow> bool" where
  "latin1 s = list_all (\<lambda>u. u < 256) s"

definition toLowerCase :: "host \<Rightarrow> utf16 \<Rightarrow> utf16" where
  "toLowerCase H s = (if latin1 s then map lower_unit s else lower_beyond_latin1 H s)"

text \<open>
  A cell has its text and, possibly, a first descendant of class \<open>age\<close>, which may
  carry a \<open>data-timestamp\<close> attribute. A row is its cells. Rows are objects: the table
  body holds their addresses in document order, \<open>row_at\<close> gives the row at an address.
  A node occurs once among the children of its parent, so the addresses in a body are
  distinct. The body's \<open>tr\<close> descendants are taken to be its child rows.
\<close>

record span =
  data_timestamp :: "utf16 option"

record cell =
  textContent :: utf16
  age_span :: "span option"

record row =
  cells :: "cell list"

record table =
  tbody :: "nat list option"

datatype direction = asc | desc

datatype indicator = blank | up_arrow | down_arrow

text \<open>
  The state \<open>sortTable\<close> works on: the two global variables, the element of identifier
  \<open>repos-table\<close> if the page has one, the row objects, and the text of the elements of
  class \<open>sort-indicator\<close> in document order (empty, an up arrow or a down arrow after
  a space).
\<close>

record document =
  currentSortColumn :: int
  currentSortDirection :: direction
  repos_table :: "table option"
  row_at :: "nat \<Rightarrow> row"
  indicators :: "indicator list"

text \<open>\<open>a < b\<close> on values: two strings by code units, anything else as numbers.\<close>

fun js_less :: "host \<Rightarrow> jsval \<Rightarrow> jsval \<Rightarrow> bool" where
  "js_less H (JString a) (JString b) = (a < b)"
| "js_less H a b = js_lt (ToNumber H a) (ToNumber H b)"

text \<open>
  The value the comparator extracts from a row. \<open>cells[columnIndex]\<close> is \<open>undefined\<close>
  outside the row, \<open>querySelector\<close> gives \<open>null\<close> when the cell has no age element:
  reading a property of either throws a TypeError. A missing attribute is \<open>null\<close>,
  which \<open>parseFloat\<close> reads as the string \<open>null\<close>.
\<close>

definition sort_value :: "host \<Rightarrow> int \<Rightarrow> string \<Rightarrow> row \<Rightarrow> error + jsval" where
  "sort_value H columnIndex dataType r =
     (if columnIndex < 0 \<or> int (length (cells r)) \<le> columnIndex then Inl TypeError
      else
        let cell = cells r ! nat columnIndex
        in if dataType = ''number''
           then (case age_span cell of
                   None \<Rightarrow> Inl TypeError
                 | Some sp \<Rightarrow>
                     Inr (JNumber (parseFloat H
                       (case data_timestamp sp of None \<Rightarrow> units_of ''null'' | Some v \<Rightarrow> v))))
           else Inr (JString (toLowerCase H (trim (textContent cell)))))"

definition three_way :: "host \<Rightarrow> jsval \<Rightarrow> jsval \<Rightarrow> int" where
  "three_way H valueA valueB =
     (if js_less H valueB valueA then 1
      else if js_less H valueA valueB then - 1
      else 0)"

text \<open>The comparator handed to \<open>rows.sort\<close>, on the rows at two addresses.\<close>

definition compare_rows :: "host \<Rightarrow> document \<Rightarrow> int \<Rightarrow> string \<Rightarrow> nat \<Rightarrow> nat \<Rightarrow> error + int" where
  "compare_rows H d columnIndex dataType a b =
     (case sort_value H columnIndex dataType (row_at d a) of
        Inl e \<Rightarrow> Inl e
      | Inr valueA \<Rightarrow>
          (case sort_value H columnIndex dataType (row_at d b) of
             Inl e \<Rightarrow> Inl e
           | Inr valueB \<Rightarrow>
               let comparison = three_way H valueA valueB
               in Inr (if currentSortDirection d = asc then comparison else - comparison)))"

text \<open>
  \<open>Array.prototype.sort\<close> is the host's: it returns a permutation, sorted when the
  comparator is consistent, and it is stable. The model is a stable insertion sort,
  which gives that one result for a consistent comparator; an exception of the
  comparator ends the sort.
\<close>

fun insert_sorted :: "('a \<Rightarrow> 'a \<Rightarrow> error + int) \<Rightarrow> 'a \<Rightarrow> 'a list \<Rightarrow> error + 'a list" where
  "insert_sorted cmp x [] = Inr [x]"
| "insert_sorted cmp x (y # ys) =
     (case cmp x y of
        Inl e \<Rightarrow> Inl e
      | Inr k \<Rightarrow>
          if k \<le> 0 then Inr (x # y # ys)
          else (case insert_sorted cmp x ys of Inl e \<Rightarrow> Inl e | Inr zs \<Rightarrow> Inr (y # zs)))"

fun Array_sort :: "('a \<Rightarrow> 'a \<Rightarrow> error + int) \<Rightarrow> 'a list \<Rightarrow> error + 'a list" where
  "Array_sort cmp [] = Inr []"
| "Array_sort cmp (x # xs) =
     (case Array_sort cmp xs of Inl e \<Rightarrow> Inl e | Inr ys \<Rightarrow> insert_sorted cmp x ys)"

text \<open>
  \<open>tbody.appendChild(row)\<close> on a row of the body: the row leaves its place and becomes
  the last child.
\<close>

definition appendChild :: "nat \<Rightarrow> nat list \<Rightarrow> nat list" where
  "appendChild r children = removeAll r children @ [r]"

definition updateSortIndicators :: "int \<Rightarrow> document \<Rightarrow> document" where
  "updateSortIndicators activeColumn d =
     d\<lparr>indicators :=
         map (\<lambda>index.
                if int index = activeColumn
                then (if currentSortDirection d = asc then up_arrow else down_arrow)
                else blank)
             [0 ..< length (indicators d)]\<rparr>"

text \<open>
  \<open>sortTable\<close> returns the exception it threw, if any, and the document as it left
  it: the sort state is updated before the rows are compared, the rows are moved only
  after the sort has returned.
\<close>

definition sortTable :: "host \<Rightarrow> int \<Rightarrow> string \<Rightarrow> document \<Rightarrow> error option \<times> document" where
  "sortTable H columnIndex dataType d =
     (case repos_table d of
        None \<Rightarrow> (Some TypeError, d)
      | Some tbl \<Rightarrow>
          (case tbody tbl of
             None \<Rightarrow> (Some TypeError, d)
           | Some rows \<Rightarrow>
               let d1 = (if currentSortColumn d = columnIndex
                         then d\<lparr>currentSortDirection :=
                                  (if currentSortDirection d = asc then desc else asc)\<rparr>
                         else d\<lparr>currentSortDirection := asc, currentSortColumn := columnIndex\<rparr>)
               in (case Array_sort (compare_rows H d1 columnIndex dataType) rows of
                     Inl e \<Rightarrow> (Some e, d1)
                   | Inr sorted_rows \<Rightarrow>
                       let d2 = d1\<lparr>repos_table :=
                                  Some (tbl\<lparr>tbody := Some (fold appendChild sorted_rows rows)\<rparr>)\<rparr>
                       in (None, updateSortIndicators columnIndex d2))))"

text \<open>The rows under the table body, in document order.\<close>

definition table_rows :: "document \<Rightarrow> nat list" where
  "table_rows d =
     (case repos_table d of
        None \<Rightarrow> []
      | Some tbl \<Rightarrow> (case tbody tbl of None \<Rightarrow> [] | Some rows \<Rightarrow> rows))"

text \<open>The variables as the script initialises them.\<close>

definition initial_sort_state :: "document \<Rightarrow> bool" where
  "initial_sort_state d = (currentSortColumn d = - 1 \<and> currentSortDirection d = asc)"

section \<open>Notions used to state the properties of sortTable\<close>

text \<open>
  The sort when no comparison throws: insertion by a relation \<open>le\<close>, where \<open>le x y\<close>
  stands for a comparator result that is not positive.
\<close>

fun insert_by :: "('a \<Rightarrow> 'a \<Rightarrow> bool) \<Rightarrow> 'a \<Rightarrow> 'a list \<Rightarrow> 'a list" where
  "insert_by le x [] = [x]"
| "insert_by le x (y # ys) = (if le x y then x # y # ys else y # insert_by le x ys)"

fun sort_by :: "('a \<Rightarrow> 'a \<Rightarrow> bool) \<Rightarrow> 'a list \<Rightarrow> 'a list" where
  "sort_by le [] = []"
| "sort_by le (x # xs) = insert_by le x (sort_by le xs)"

definition total_on :: "'a set \<Rightarrow> ('a \<Rightarrow> 'a \<Rightarrow> bool) \<Rightarrow> bool" where
  "total_on A le = (\<forall>x \<in> A. \<forall>y \<in> A. le x y \<or> le y x)"

definition trans_on :: "'a set \<Rightarrow> ('a \<Rightarrow> 'a \<Rightarrow> bool) \<Rightarrow> bool" where
  "trans_on A le = (\<forall>x \<in> A. \<forall>y \<in> A. \<forall>z \<in> A. le x y \<longrightarrow> le y z \<longrightarrow> le x z)"

text \<open>
  The value of the row at an address, when it has one, and the ascending order of the
  rows by their values.
\<close>

definition value_at :: "host \<Rightarrow> int \<Rightarrow> string \<Rightarrow> (nat \<Rightarrow> row) \<Rightarrow> nat \<Rightarrow> jsval" where
  "value_at H c dt rows_of a =
     (case sort_value H c dt (rows_of a) of Inr v \<Rightarrow> v | Inl e \<Rightarrow> JUndefined)"

definition ascending :: "host \<Rightarrow> int \<Rightarrow> string \<Rightarrow> (nat \<Rightarrow> row) \<Rightarrow> nat \<Rightarrow> nat \<Rightarrow> bool" where
  "ascending H c dt rows_of a b =
     (\<not> js_less H (value_at H c dt rows_of b) (value_at H c dt rows_of a))"

fun in_direction :: "direction \<Rightarrow> ('a \<Rightarrow> 'a \<Rightarrow> bool) \<Rightarrow> 'a \<Rightarrow> 'a \<Rightarrow> bool" where
  "in_direction asc le a b = le a b"
| "in_direction desc le a b = le b a"

fun flip :: "direction \<Rightarrow> direction" where
  "flip asc = desc"
| "flip desc = asc"


section \<open>A sample host and sample pages\<close>

text \<open>
  A small instance of the host, for concrete pages. Its conversions give the value of a
  string of decimal digits with an optional minus sign, and NaN for every other string.
  Its arithmetic is exact, as the arithmetic of doubles is on whole numbers of seconds.
  Beyond Latin-1 it lowers the Greek capital letters, with the final form of sigma
  after a letter at the end of a word. A browser agrees with it on the inputs used below.
\<close>

fun digits_value :: "utf16 \<Rightarrow> nat \<Rightarrow> nat option" where
  "digits_value [] acc = Some acc"
| "digits_value (d # ds) acc =
     (if 48 \<le> d \<and> d \<le> 57
      then digits_value ds (10 * acc + (d - 48))
      else None)"

definition unsigned_decimal :: "utf16 \<Rightarrow> real option" where
  "unsigned_decimal s = (if s = [] then None else map_option of_nat (digits_value s 0))"

definition decimal :: "utf16 \<Rightarrow> jsnum" where
  "decimal s =
     (case s of
        [] \<Rightarrow> NaN
      | c # cs \<Rightarrow>
          if c = 45
          then (case unsigned_decimal cs of None \<Rightarrow> NaN | Some x \<Rightarrow> Num (- x))
          else (case unsigned_decimal s of None \<Rightarrow> NaN | Some x \<Rightarrow> Num x))"

definition greek_capital :: "nat \<Rightarrow> bool" where
  "greek_capital u = ((913 \<le> u \<and> u \<le> 929) \<or> (931 \<le> u \<and> u \<le> 939))"

definition greek_letter :: "nat \<Rightarrow> bool" where
  "greek_letter u = (greek_capital u \<or> (945 \<le> u \<and> u \<le> 969))"

fun greek_lower :: "bool \<Rightarrow> utf16 \<Rightarrow> utf16" where
  "greek_lower after_letter [] = []"
| "greek_lower after_letter (u # us) =
     (if u = 931
      then (if after_letter \<and> (case us of [] \<Rightarrow> True | v # vs \<Rightarrow> \<not> greek_letter v)
            then 962 else 963) # greek_lower True us
      else (if greek_capital u then u + 32 else lower_unit u)
           # greek_lower (greek_letter u \<or> is_upper u \<or> is_upper (u - 32)) us)"

definition sample_host :: host where
  "sample_host =
     \<lparr>StringToNumber = decimal, parseFloat = decimal, round64 = (\<lambda>x. x),
      lower_beyond_latin1 = greek_lower False\<rparr>"

text \<open>
  Three sample tables. Each row has a name cell and a cell with an age element. The
  first is the table \<open>beta 100, alpha 300, gamma 200\<close>. In the second, the names of the
  two rows differ in case and surrounding white space only. In the third, the names are
  a Greek word in capital letters and the same word in small letters, whose last letter
  is the sigma that is not the final form.
\<close>

definition sample_row :: "utf16 \<Rightarrow> string \<Rightarrow> row" where
  "sample_row name stamp =
     \<lparr>cells = [\<lparr>textContent = name, age_span = None\<rparr>,
                \<lparr>textContent = units_of stamp,
                 age_span = Some \<lparr>data_timestamp = Some (units_of stamp)\<rparr>\<rparr>]\<rparr>"

definition sample_rows :: "nat \<Rightarrow> row" where
  "sample_rows a =
     (if a = 0 then sample_row (units_of ''beta'') ''100''
      else if a = 1 then sample_row (units_of ''alpha'') ''300''
      else sample_row (units_of ''gamma'') ''200'')"

definition sample_document :: document where
  "sample_document =
     \<lparr>currentSortColumn = - 1, currentSortDirection = asc,
      repos_table = Some \<lparr>tbody = Some [0, 1, 2]\<rparr>,
      row_at = sample_rows, indicators = [blank, blank]\<rparr>"

definition tied_rows :: "nat \<Rightarrow> row" where
  "tied_rows a =
     (if a = 0 then sample_row (units_of ''  Beta '') ''100''
      else sample_row (units_of ''beta'') ''100'')"

definition tied_document :: document where
  "tied_document =
     \<lparr>currentSortColumn = - 1, currentSortDirection = asc,
      repos_table = Some \<lparr>tbody = Some [0, 1]\<rparr>,
      row_at = tied_rows, indicators = [blank, blank]\<rparr>"



section \<open>Arithmetic of doubles\<close>

lemma rounding_mono: "ieee_rounding H \<Longrightarrow> x \<le> y \<Longrightarrow> round64 H x \<le> round64 H y"
  unfolding ieee_rounding_def by blast

lemma rounding_int: "ieee_rounding H \<Longrightarrow> \<bar>n\<bar> \<le> 2 ^ 53 \<Longrightarrow> round64 H (of_int n) = of_int n"
  unfolding ieee_rounding_def by blast

lemma rounding_error:
  "ieee_rounding H \<Longrightarrow> 1 / 2 ^ 53 \<le> \<bar>x\<bar> \<Longrightarrow> \<bar>x\<bar> \<le> 2 ^ 53 \<Longrightarrow>
   \<bar>round64 H x - x\<bar> \<le> \<bar>x\<bar> / 2 ^ 53"
  unfolding ieee_rounding_def by blast

lemma MAX_VALUE_large: "2 ^ 53 \<le> MAX_VALUE"
  by (simp add: MAX_VALUE_def)

lemma to_double_between:
  assumes "- (2 ^ 53) \<le> round64 H x" and "round64 H x \<le> 2 ^ 53"
  shows "to_double H x = Num (round64 H x)"
  using assms MAX_VALUE_large by (simp add: to_double_def Let_def)

lemma floor_round64_div:
  fixes s K :: int
  assumes R: "ieee_rounding H" and s: "0 \<le> s" "s < 2 ^ 53" and K: "0 < K" "K \<le> 2 ^ 53"
  shows "\<lfloor>round64 H (of_int s / of_int K)\<rfloor> = s div K"
proof -
  define q where "q = real_of_int s / real_of_int K"
  define n where "n = s div K"
  define r where "r = s mod K"
  have decomp: "s = n * K + r" and r: "0 \<le> r" "r < K"
    using K by (simp_all add: n_def r_def)
  have n0: "0 \<le> n"
    using s K by (simp add: n_def pos_imp_zdiv_nonneg_iff)
  have "s div K \<le> s div 1"
    by (rule zdiv_mono2) (use s K in simp_all)
  then have n: "0 \<le> n" "n \<le> s"
    using n0 by (simp_all add: n_def)
  have Kr: "0 < real_of_int K" using K by simp
  have q: "q = of_int n + of_int r / of_int K"
    unfolding q_def using Kr decomp by (simp add: field_simps)
  show ?thesis
  proof (cases "r = 0")
    case True
    then have "q = of_int n" using q by simp
    moreover have "\<bar>n\<bar> \<le> 2 ^ 53" using n s by simp
    ultimately have "round64 H q = of_int n"
      using rounding_int [OF R] by simp
    then show ?thesis by (simp add: q_def n_def)
  next
    case False
    then have r1: "1 \<le> r" "r \<le> K - 1" using r by simp_all
    have "1 / real_of_int K \<le> of_int r / of_int K"
      using r1 Kr by (intro divide_right_mono) simp_all
    then have lo: "of_int n + 1 / of_int K \<le> q"
      unfolding q by simp
    have "real_of_int r / of_int K \<le> (of_int K - 1) / of_int K"
      using r1 Kr by (intro divide_right_mono) simp_all
    also have "\<dots> = 1 - 1 / of_int K"
      using Kr by (simp add: diff_divide_distrib)
    finally have hi: "q \<le> of_int n + 1 - 1 / of_int K"
      unfolding q by simp
    have "real_of_int s / of_int K \<le> of_int s / 1"
      using s K by (intro divide_left_mono) simp_all
    then have qs: "q \<le> of_int s"
      unfolding q_def by simp
    have q_pos: "0 < q" using lo n Kr
      by (smt (verit) divide_pos_pos of_int_0_le_iff)
    have inv: "1 / 2 ^ 53 \<le> 1 / real_of_int K"
      using K Kr by (simp add: field_simps)
    have q_small: "1 / 2 ^ 53 \<le> \<bar>q\<bar>"
      using lo n inv q_pos by simp
    have q_big: "\<bar>q\<bar> \<le> 2 ^ 53"
      using qs s q_pos by simp
    have err: "\<bar>round64 H q - q\<bar> \<le> \<bar>q\<bar> / 2 ^ 53"
      by (rule rounding_error [OF R q_small q_big])
    have "real_of_int s / 2 ^ 53 < 1" using s by simp
    then have "q / 2 ^ 53 < 1 / of_int K"
      unfolding q_def using Kr by (simp add: field_simps)
    with err q_pos have "\<bar>round64 H q - q\<bar> < 1 / of_int K" by simp
    with lo hi have "of_int n \<le> round64 H q" and "round64 H q < of_int n + 1"
      by linarith+
    then have "\<lfloor>round64 H q\<rfloor> = n" by linarith
    then show ?thesis by (simp add: q_def n_def)
  qed
qed

lemma now_value:
  assumes R: "ieee_rounding H" and T: "time_value (c 0)"
  shows "now H c = (Num (round64 H (of_int (c 0) / 1000)), \<lambda>n. c (Suc n))"
    and "\<bar>round64 H (of_int (c 0) / 1000)\<bar> \<le> 8640000000000"
proof -
  let ?x = "real_of_int (c 0) / 1000"
  have x: "of_int (- 8640000000000) \<le> ?x" "?x \<le> of_int 8640000000000"
    using T by (simp_all add: time_value_def)
  have "round64 H (of_int (- 8640000000000)) \<le> round64 H ?x"
    by (rule rounding_mono [OF R x(1)])
  moreover have "round64 H ?x \<le> round64 H (of_int 8640000000000)"
    by (rule rounding_mono [OF R x(2)])
  moreover have "round64 H (of_int (- 8640000000000)) = of_int (- 8640000000000)"
    by (rule rounding_int [OF R]) simp
  moreover have "round64 H (of_int 8640000000000) = of_int 8640000000000"
    by (rule rounding_int [OF R]) simp
  ultimately show b: "\<bar>round64 H ?x\<bar> \<le> 8640000000000" by simp
  then have "to_double H ?x = Num (round64 H ?x)"
    by (intro to_double_between) simp_all
  then show "now H c = (Num (round64 H ?x), \<lambda>n. c (Suc n))"
    by (simp add: now_def)
qed

lemma elapsed_cases:
  assumes R: "ieee_rounding H" and v: "v \<le> 8640000000000" and t: "0 \<le> t"
  shows "js_sub H (Num v) (Num t) = NegInf \<or>
         (js_sub H (Num v) (Num t) = Num (round64 H (v - t)) \<and> round64 H (v - t) \<le> 8640000000000)"
proof -
  have "v - t \<le> of_int 8640000000000" using v t by simp
  then have "round64 H (v - t) \<le> round64 H (of_int 8640000000000)"
    by (rule rounding_mono [OF R])
  moreover have "round64 H (of_int 8640000000000) = of_int 8640000000000"
    by (rule rounding_int [OF R]) simp
  ultimately have b: "round64 H (v - t) \<le> 8640000000000" by simp
  then have "\<not> MAX_VALUE < round64 H (v - t)"
    using MAX_VALUE_large by simp
  with b show ?thesis by (simp add: to_double_def Let_def)
qed

lemma interval_nonneg:
  fixes s K :: int
  assumes R: "ieee_rounding H" and s: "0 \<le> s" "s < 2 ^ 53" and K: "0 < K" "K \<le> 2 ^ 53"
  shows "Math_floor (js_div H (Num (of_int s)) (Num (of_int K))) = Num (of_int (s div K))"
proof -
  let ?q = "real_of_int s / real_of_int K"
  have "of_int 0 \<le> ?q" using s K by simp
  then have "round64 H (of_int 0) \<le> round64 H ?q" by (rule rounding_mono [OF R])
  moreover have "round64 H (of_int 0) = of_int 0" by (rule rounding_int [OF R]) simp
  ultimately have lo: "0 \<le> round64 H ?q" by simp
  have "?q \<le> of_int s / 1"
    using s K by (intro divide_left_mono) simp_all
  then have "?q \<le> of_int s" by simp
  then have "round64 H ?q \<le> round64 H (of_int s)" by (rule rounding_mono [OF R])
  moreover have "round64 H (of_int s) = of_int s"
    by (rule rounding_int [OF R]) (use s in simp)
  ultimately have hi: "round64 H ?q \<le> 2 ^ 53" using s by simp
  have "to_double H ?q = Num (round64 H ?q)"
    by (rule to_double_between) (use lo hi in simp_all)
  then show ?thesis
    using K floor_round64_div [OF R s K] by simp
qed

lemma interval_negative:
  fixes s K :: int
  assumes R: "ieee_rounding H" and s: "s < 0" and K: "0 < K"
  shows "\<not> js_gt (Math_floor (js_div H (Num (of_int s)) (Num (of_int K)))) (Num 1)"
proof -
  let ?q = "real_of_int s / real_of_int K"
  have "?q \<le> of_int 0" using s K by (simp add: divide_le_0_iff)
  then have "round64 H ?q \<le> round64 H (of_int 0)" by (rule rounding_mono [OF R])
  moreover have "round64 H (of_int 0) = of_int 0" by (rule rounding_int [OF R]) simp
  ultimately have le: "round64 H ?q \<le> 0" by simp
  then have "\<not> MAX_VALUE < round64 H ?q" using MAX_VALUE_large by simp
  with le have "to_double H ?q = NegInf \<or> to_double H ?q = Num (round64 H ?q)"
    by (simp add: to_double_def Let_def)
  then show ?thesis
  proof
    assume "to_double H ?q = NegInf"
    then show ?thesis using K by (simp add: js_gt_def)
  next
    assume "to_double H ?q = Num (round64 H ?q)"
    moreover have "\<lfloor>round64 H ?q\<rfloor> \<le> 0" using le by (simp add: floor_le_iff)
    ultimately show ?thesis using K by (simp add: js_gt_def)
  qed
qed

lemma constants:
  "(365 * 24 * 60 * 60 :: real) = 31536000" "(30 * 24 * 60 * 60 :: real) = 2592000"
  "(24 * 60 * 60 :: real) = 86400" "(60 * 60 :: real) = 3600"
  by simp_all

lemma js_gt_int: "js_gt (Num (of_int a)) (Num 1) = (1 < a)"
  by (simp add: js_gt_def)

lemma Number_toString_int: "Number_toString (Num (of_int a)) = int_toString a"
  by simp

lemma cascade_spec_div:
  "cascade_spec s =
     (if 1 < s div 31536000 then int_toString (s div 31536000) @ '' years ago''
      else if 1 < s div 2592000 then int_toString (s div 2592000) @ '' months ago''
      else if 1 < s div 86400 then int_toString (s div 86400) @ '' days ago''
      else if 1 < s div 3600 then int_toString (s div 3600) @ '' hours ago''
      else if 1 < s div 60 then int_toString (s div 60) @ '' minutes ago''
      else if 1 < s then int_toString s @ '' seconds ago''
      else ''about now'')"
proof -
  have "\<lfloor>real_of_int s / real_of_int k\<rfloor> = s div k" for k
    by (rule floor_divide_of_int_eq)
  from this [of 31536000] this [of 2592000] this [of 86400] this [of 3600] this [of 60]
  show ?thesis
    unfolding cascade_spec_def by (simp only: of_int_numeral cong: if_cong)
qed

lemma cascade_spec_small:
  assumes "s \<le> 1"
  shows "cascade_spec s = ''about now''"
proof -
  have small: "s div k \<le> 1 div k" if "0 < k" for k
    using assms that by (rule zdiv_mono1)
  have "s div 31536000 \<le> 1" "s div 2592000 \<le> 1" "s div 86400 \<le> 1"
    "s div 3600 \<le> 1" "s div 60 \<le> 1"
    using small [of 31536000] small [of 2592000] small [of 86400] small [of 3600] small [of 60]
    by simp_all
  with assms show ?thesis
    unfolding cascade_spec_div by simp
qed

lemma how_long_ago_nonneg_seconds:
  assumes R: "ieee_rounding H"
    and never: "\<not> js_lt (ToNumber H timestamp) (Num 0)"
    and clock: "now H c = (nv, c')"
    and sec: "Math_floor (js_sub H nv (ToNumber H timestamp)) = Num (of_int s)"
    and s: "0 \<le> s" "s < 2 ^ 53"
  shows "how_long_ago H timestamp c = (cascade_spec s, c')"
proof -
  note i = interval_nonneg [OF R s]
  have i1: "Math_floor (js_div H (Num (of_int s)) (Num 31536000)) = Num (of_int (s div 31536000))"
    using i [of 31536000] by simp
  have i2: "Math_floor (js_div H (Num (of_int s)) (Num 2592000)) = Num (of_int (s div 2592000))"
    using i [of 2592000] by simp
  have i3: "Math_floor (js_div H (Num (of_int s)) (Num 86400)) = Num (of_int (s div 86400))"
    using i [of 86400] by simp
  have i4: "Math_floor (js_div H (Num (of_int s)) (Num 3600)) = Num (of_int (s div 3600))"
    using i [of 3600] by simp
  have i5: "Math_floor (js_div H (Num (of_int s)) (Num 60)) = Num (of_int (s div 60))"
    using i [of 60] by simp
  show ?thesis
    unfolding how_long_ago_def cascade_spec_div clock Let_def prod.case sec constants
    by (simp only: never if_False i1 i2 i3 i4 i5 js_gt_int Number_toString_int
                   Math_floor.simps floor_of_int cong: if_cong)
       simp
qed

lemma how_long_ago_negative_seconds:
  assumes R: "ieee_rounding H"
    and never: "\<not> js_lt (ToNumber H timestamp) (Num 0)"
    and clock: "now H c = (nv, c')"
    and sec: "Math_floor (js_sub H nv (ToNumber H timestamp)) = Num (of_int s)"
    and s: "s < 0"
  shows "how_long_ago H timestamp c = (''about now'', c')"
proof -
  note i = interval_negative [OF R s]
  have i1: "\<not> js_gt (Math_floor (js_div H (Num (of_int s)) (Num 31536000))) (Num 1)"
    using i [of 31536000] by simp
  have i2: "\<not> js_gt (Math_floor (js_div H (Num (of_int s)) (Num 2592000))) (Num 1)"
    using i [of 2592000] by simp
  have i3: "\<not> js_gt (Math_floor (js_div H (Num (of_int s)) (Num 86400))) (Num 1)"
    using i [of 86400] by simp
  have i4: "\<not> js_gt (Math_floor (js_div H (Num (of_int s)) (Num 3600))) (Num 1)"
    using i [of 3600] by simp
  have i5: "\<not> js_gt (Math_floor (js_div H (Num (of_int s)) (Num 60))) (Num 1)"
    using i [of 60] by simp
  have i6: "\<not> js_gt (Num (of_int s)) (Num 1)"
    using s by (simp add: js_gt_def)
  show ?thesis
    unfolding how_long_ago_def clock Let_def prod.case sec constants
    by (simp only: never if_False i1 i2 i3 i4 i5 i6)
qed

lemma how_long_ago_infinite_seconds:
  assumes never: "\<not> js_lt (ToNumber H timestamp) (Num 0)"
    and clock: "now H c = (nv, c')"
    and sec: "Math_floor (js_sub H nv (ToNumber H timestamp)) = NegInf"
  shows "how_long_ago H timestamp c = (''about now'', c')"
  unfolding how_long_ago_def clock Let_def prod.case sec constants
  by (simp add: never js_gt_def)

lemma how_long_ago_clock:
  assumes "\<not> js_lt (ToNumber H timestamp) (Num 0)"
  shows "snd (how_long_ago H timestamp c) = (\<lambda>n. c (Suc n))"
  unfolding how_long_ago_def Let_def now_def prod.case
  by (simp only: assms if_False if_distrib [of snd] snd_conv if_cancel)

section \<open>Properties of how_long_ago\<close>

lemma sample_rounding: "ieee_rounding sample_host"
  by (simp add: ieee_rounding_def sample_host_def)

lemma sample_decimal_1699913600: "decimal (units_of ''1699913600'') = Num 1699913600"
  by (simp add: decimal_def unsigned_decimal_def units_of_def)

text \<open>
  C1: for a finite timestamp \<open>t \<ge> 0\<close>, on a host whose rounding is that of doubles and
  with a clock reading that is a time value, \<open>seconds = floor(now() - t)\<close> as the code
  computes it is a finite number or minus infinity, and \<open>how_long_ago\<close> returns the
  string of the first-match cascade on it, each tier asking for more than one whole
  unit (on minus infinity every tier fails). An age of exactly 86400 seconds gives
  \<open>24 hours ago\<close>, not a days string.
\<close>

theorem how_long_ago_cascade:
  assumes "ieee_rounding H" and "time_value (c 0)"
    and "ToNumber H timestamp = Num t" and "0 \<le> t"
  shows "case Math_floor (js_sub H (fst (now H c)) (Num t)) of
           Num seconds \<Rightarrow>
             fst (how_long_ago H timestamp c) = cascade_spec \<lfloor>seconds\<rfloor> \<and>
             (seconds = 86400 \<longrightarrow> fst (how_long_ago H timestamp c) = ''24 hours ago'')
         | NegInf \<Rightarrow> fst (how_long_ago H timestamp c) = ''about now''
         | NaN \<Rightarrow> False
         | PosInf \<Rightarrow> False"
proof -
  note R = assms(1)
  let ?v = "round64 H (of_int (c 0) / 1000)"
  let ?c' = "\<lambda>n. c (Suc n)"
  have clock: "now H c = (Num ?v, ?c')" and v: "\<bar>?v\<bar> \<le> 8640000000000"
    by (rule now_value [where c = c, OF R assms(2)])+
  have never: "\<not> js_lt (ToNumber H timestamp) (Num 0)"
    using assms(3,4) by simp
  have day: "cascade_spec 86400 = ''24 hours ago''"
    by (simp add: cascade_spec_def int_toString_def nat_toString.simps)
  from v have "?v \<le> 8640000000000" by simp
  from elapsed_cases [OF R this assms(4)]
  show ?thesis
  proof
    assume inf: "js_sub H (Num ?v) (Num t) = NegInf"
    then have "Math_floor (js_sub H (Num ?v) (ToNumber H timestamp)) = NegInf"
      using assms(3) by simp
    from how_long_ago_infinite_seconds [OF never clock this] inf
    show ?thesis by (simp add: clock)
  next
    let ?d = "round64 H (?v - t)"
    let ?s = "\<lfloor>?d\<rfloor>"
    assume "js_sub H (Num ?v) (Num t) = Num ?d \<and> ?d \<le> 8640000000000"
    then have fin: "js_sub H (Num ?v) (Num t) = Num ?d" and d: "?d \<le> 8640000000000"
      by simp_all
    have sec: "Math_floor (js_sub H (Num ?v) (ToNumber H timestamp)) = Num (of_int ?s)"
      using fin assms(3) by simp
    have "?s \<le> 8640000000000" using d by (simp add: floor_le_iff)
    then have s: "?s < 2 ^ 53" by simp
    have "how_long_ago H timestamp c = (cascade_spec ?s, ?c')"
    proof (cases "?s < 0")
      case True
      then have "cascade_spec ?s = ''about now''"
        by (intro cascade_spec_small) simp
      with how_long_ago_negative_seconds [OF R never clock sec True]
      show ?thesis by simp
    next
      case False
      then have "0 \<le> ?s" by simp
      from how_long_ago_nonneg_seconds [OF R never clock sec this s]
      show ?thesis .
    qed
    with fin day show ?thesis by (simp add: clock)
  qed
qed

theorem how_long_ago_cascade_witness:
  "ieee_rounding sample_host \<and> time_value 1700000000000 \<and>
   ToNumber sample_host (JString (units_of ''1699913600'')) = Num 1699913600 \<and>
   (0::real) \<le> 1699913600 \<and>
   Math_floor (js_sub sample_host (fst (now sample_host (\<lambda>n. 1700000000000))) (Num 1699913600))
     = Num 86400 \<and>
   fst (how_long_ago sample_host (JString (units_of ''1699913600'')) (\<lambda>n. 1700000000000))
     = ''24 hours ago''"
proof -
  have r: "ieee_rounding sample_host" by (rule sample_rounding)
  have c: "time_value ((\<lambda>n. 1700000000000) (0::nat))" by (simp add: time_value_def)
  have h: "ToNumber sample_host (JString (units_of ''1699913600'')) = Num 1699913600"
    by (simp add: sample_host_def sample_decimal_1699913600)
  have p: "(0::real) \<le> 1699913600" by simp
  have e: "Math_floor (js_sub sample_host (fst (now sample_host (\<lambda>n. 1700000000000)))
             (Num 1699913600)) = Num 86400"
    by (simp add: now_def to_double_def sample_host_def MAX_VALUE_def)
  note w = how_long_ago_cascade [OF r c h p, unfolded e jsnum.case, THEN conjunct2, THEN mp, OF refl]
  show ?thesis
    using r c h e w by simp
qed

text \<open>
  C6: for every timestamp below zero (minus infinity included), \<open>how_long_ago\<close> returns
  \<open>never\<close>, whatever the clock shows; the clock is not even read.
\<close>

theorem how_long_ago_never:
  assumes "js_lt (ToNumber H timestamp) (Num 0)"
  shows "how_long_ago H timestamp c = (''never'', c)"
  using assms by (simp add: how_long_ago_def)

theorem how_long_ago_never_witness:
  "js_lt (ToNumber sample_host (JString (units_of ''-1''))) (Num 0) \<and>
   how_long_ago sample_host (JString (units_of ''-1'')) (\<lambda>n. 1700000000000)
     = (''never'', \<lambda>n. 1700000000000)"
proof -
  have h: "js_lt (ToNumber sample_host (JString (units_of ''-1''))) (Num 0)"
    by (simp add: sample_host_def decimal_def unsigned_decimal_def units_of_def)
  show ?thesis using h how_long_ago_never [OF h, of "\<lambda>n. 1700000000000"] by simp
qed

lemma js_sub_NaN: "js_sub H a NaN = NaN"
  by (cases a) simp_all

text \<open>
  C8: when the input converts to NaN, \<open>how_long_ago\<close> returns \<open>about now\<close>: every
  comparison of the cascade is false. The function has no failing branch.
\<close>

theorem how_long_ago_NaN:
  assumes "ToNumber H timestamp = NaN"
  shows "fst (how_long_ago H timestamp c) = ''about now''"
  using assms by (simp add: how_long_ago_def js_gt_def Let_def case_prod_beta js_sub_NaN)

theorem how_long_ago_NaN_witness:
  "ToNumber sample_host (JString (units_of ''abc'')) = NaN \<and>
   fst (how_long_ago sample_host (JString (units_of ''abc'')) (\<lambda>n. 1700000000000)) = ''about now''"
proof -
  have h: "ToNumber sample_host (JString (units_of ''abc'')) = NaN"
    by (simp add: sample_host_def decimal_def unsigned_decimal_def units_of_def)
  show ?thesis using h how_long_ago_NaN [OF h, of "\<lambda>n. 1700000000000"] by simp
qed

section \<open>Properties of replace_timestamps\<close>

lemma class_tokens_word:
  "\<forall>ch \<in> set w. \<not> ascii_whitespace ch \<Longrightarrow> w \<noteq> [] \<or> cur \<noteq> [] \<Longrightarrow>
   class_tokens w cur = [cur @ w]"
  by (induction w arbitrary: cur) auto

lemma class_tokens_append_word:
  "\<forall>ch \<in> set w. \<not> ascii_whitespace ch \<Longrightarrow> w \<noteq> [] \<Longrightarrow>
   class_tokens (s @ CHR '' '' # w) cur = class_tokens s cur @ [w]"
proof (induction s arbitrary: cur)
  case Nil
  then show ?case
    using class_tokens_word [of w "[]"] by (simp add: ascii_whitespace_def)
next
  case (Cons a s)
  then show ?case by simp
qed

lemma band_words:
  "\<forall>ch \<in> set ''age-band0''. \<not> ascii_whitespace ch"
  "\<forall>ch \<in> set ''age-band1''. \<not> ascii_whitespace ch"
  "\<forall>ch \<in> set ''age-band2''. \<not> ascii_whitespace ch"
  by (simp_all add: ascii_whitespace_def)

lemma class_tokens_band:
  "class_tokens (s @ '' age-band0'') [] = class_tokens s [] @ [''age-band0'']"
  "class_tokens (s @ '' age-band1'') [] = class_tokens s [] @ [''age-band1'']"
  "class_tokens (s @ '' age-band2'') [] = class_tokens s [] @ [''age-band2'']"
  using class_tokens_append_word [OF band_words(1), of s "[]"]
        class_tokens_append_word [OF band_words(2), of s "[]"]
        class_tokens_append_word [OF band_words(3), of s "[]"]
  by simp_all

lemma replace_timestamp_positive:
  assumes "ToNumber H (JString (innerHTML e)) = Num t" and "0 < t"
  shows "className (fst (replace_timestamp H e c)) =
           className e @
           (case band_class (js_sub H (fst (now H (\<lambda>n. c (Suc n)))) (Num t)) of
              None \<Rightarrow> [] | Some b \<Rightarrow> CHR '' '' # b)"
proof -
  have never: "\<not> js_lt (ToNumber H (JString (innerHTML e))) (Num 0)"
    using assms by simp
  have pos: "js_gt (ToNumber H (JString (innerHTML e))) (Num 0)"
    using assms by (simp add: js_gt_def)
  note clk = how_long_ago_clock [OF never, of c]
  show ?thesis
    unfolding replace_timestamp_def Let_def case_prod_beta clk
    using pos assms(1) by (simp add: band_class_def)
qed

lemma replace_timestamp_not_positive:
  assumes "\<not> js_gt (ToNumber H (JString (innerHTML e))) (Num 0)"
  shows "className (fst (replace_timestamp H e c)) = className e"
  using assms by (simp add: replace_timestamp_def Let_def case_prod_beta)

text \<open>
  The collection of age elements is live: an element rewritten by the loop body keeps
  the class \<open>age\<close>, so it stays in the collection at its position.
\<close>

lemma replace_timestamp_className:
  "className (fst (replace_timestamp H e c)) \<in>
     {className e, className e @ '' age-band0'', className e @ '' age-band1'',
      className e @ '' age-band2''}"
  by (simp add: replace_timestamp_def Let_def case_prod_beta)

lemma replace_timestamp_keeps_age:
  assumes "has_class ''age'' e"
  shows "has_class ''age'' (fst (replace_timestamp H e c))"
  using assms replace_timestamp_className [of H e c]
  by (auto simp: has_class_def classes_def class_tokens_band)

lemma length_replace_timestamps:
  "length (fst (replace_timestamps H page c)) = length page"
  by (induction page arbitrary: c) (simp_all add: Let_def case_prod_beta)

lemma replace_timestamps_append:
  "replace_timestamps H (xs @ ys) c =
     (fst (replace_timestamps H xs c) @
        fst (replace_timestamps H ys (snd (replace_timestamps H xs c))),
      snd (replace_timestamps H ys (snd (replace_timestamps H xs c))))"
  by (induction xs arbitrary: c) (simp_all add: Let_def case_prod_beta)

lemma replace_timestamps_nth:
  assumes "i < length page" and "has_class ''age'' (page ! i)"
  shows "fst (replace_timestamps H page c) ! i =
         fst (replace_timestamp H (page ! i) (snd (replace_timestamps H (take i page) c)))"
proof -
  have "page = take i page @ page ! i # drop (Suc i) page"
    using assms(1) by (simp add: id_take_nth_drop)
  then have "fst (replace_timestamps H page c) =
      fst (replace_timestamps H (take i page) c) @
      fst (replace_timestamps H (page ! i # drop (Suc i) page)
             (snd (replace_timestamps H (take i page) c)))"
    using replace_timestamps_append [of H "take i page" "page ! i # drop (Suc i) page" c]
    by simp
  moreover have "length (fst (replace_timestamps H (take i page) c)) = i"
    using assms(1) by (simp add: length_replace_timestamps)
  ultimately show ?thesis
    using assms(2) by (simp add: nth_append Let_def case_prod_beta)
qed

text \<open>
  C2: for the age-marked element at position \<open>i\<close> of the page with a finite raw
  timestamp \<open>t\<close>, where \<open>clk\<close> is the clock when the loop reaches it and \<open>age\<close> is
  \<open>now() - t\<close> as the code computes it from the second reading: if \<open>t > 0\<close> the class
  attribute gains exactly the one class of the band of the age (band0 below 7200, band1
  below 259200, band2 below 2592000, none from there on) after the classes it had; if
  \<open>t \<le> 0\<close> it is unchanged. The ages 7199, 7200, 2591999 and 2592000 give band0,
  band1, band2 and no class.
\<close>

theorem replace_timestamps_age_band:
  assumes "i < length page" and "has_class ''age'' (page ! i)"
    and "ToNumber H (JString (innerHTML (page ! i))) = Num t"
  shows "let clk = snd (replace_timestamps H (take i page) c);
             age = js_sub H (fst (now H (\<lambda>n. clk (Suc n)))) (Num t);
             e = page ! i;
             e' = fst (replace_timestamps H page c) ! i
         in (0 < t \<longrightarrow>
               className e' = className e @ (case band_class age of None \<Rightarrow> [] | Some b \<Rightarrow> CHR '' '' # b) \<and>
               classes e' = classes e @ (case band_class age of None \<Rightarrow> [] | Some b \<Rightarrow> [b])) \<and>
            (t \<le> 0 \<longrightarrow> className e' = className e) \<and>
            (0 < t \<and> age = Num 7199 \<longrightarrow> classes e' = classes e @ [''age-band0'']) \<and>
            (0 < t \<and> age = Num 7200 \<longrightarrow> classes e' = classes e @ [''age-band1'']) \<and>
            (0 < t \<and> age = Num 2591999 \<longrightarrow> classes e' = classes e @ [''age-band2'']) \<and>
            (0 < t \<and> age = Num 2592000 \<longrightarrow> classes e' = classes e)"
proof -
  define clk where "clk = snd (replace_timestamps H (take i page) c)"
  define age where "age = js_sub H (fst (now H (\<lambda>n. clk (Suc n)))) (Num t)"
  define e' where "e' = fst (replace_timestamps H page c) ! i"
  have e': "e' = fst (replace_timestamp H (page ! i) clk)"
    unfolding e'_def clk_def by (rule replace_timestamps_nth [OF assms(1,2)])
  have pos: "className e' = className (page ! i) @
      (case band_class age of None \<Rightarrow> [] | Some b \<Rightarrow> CHR '' '' # b)" if "0 < t"
    unfolding e' age_def by (rule replace_timestamp_positive [OF assms(3) that])
  have tok: "classes e' = classes (page ! i) @
      (case band_class age of None \<Rightarrow> [] | Some b \<Rightarrow> [b])" if "0 < t"
    using pos [OF that]
    by (simp add: classes_def band_class_def class_tokens_band)
  have nonpos: "className e' = className (page ! i)" if "t \<le> 0"
    unfolding e'
    by (rule replace_timestamp_not_positive) (use assms(3) that in \<open>simp add: js_gt_def\<close>)
  have b0: "classes e' = classes (page ! i) @ [''age-band0'']" if "0 < t" "age = Num 7199"
    using tok [OF that(1)] that(2) by (simp add: band_class_def)
  have b1: "classes e' = classes (page ! i) @ [''age-band1'']" if "0 < t" "age = Num 7200"
    using tok [OF that(1)] that(2) by (simp add: band_class_def)
  have b2: "classes e' = classes (page ! i) @ [''age-band2'']" if "0 < t" "age = Num 2591999"
    using tok [OF that(1)] that(2) by (simp add: band_class_def)
  have b3: "classes e' = classes (page ! i)" if "0 < t" "age = Num 2592000"
    using tok [OF that(1)] that(2) by (simp add: band_class_def)
  show ?thesis
    unfolding Let_def clk_def [symmetric] age_def [symmetric] e'_def [symmetric]
    using pos tok nonpos b0 b1 b2 b3 by blast
qed

lemma sample_decimal_1699992801: "decimal (units_of ''1699992801'') = Num 1699992801"
  by (simp add: decimal_def unsigned_decimal_def units_of_def)

theorem replace_timestamps_age_band_witness:
  "0 < length [sample_age_element] \<and>
   has_class ''age'' ([sample_age_element] ! 0) \<and>
   ToNumber sample_host (JString (innerHTML ([sample_age_element] ! 0))) = Num 1699992801 \<and>
   js_sub sample_host (fst (now sample_host (\<lambda>n. 1700000000000))) (Num 1699992801) = Num 7199 \<and>
   classes (fst (replace_timestamps sample_host [sample_age_element] (\<lambda>n. 1700000000000)) ! 0)
     = [''age'', ''age-band0'']"
proof -
  have h1: "0 < length [sample_age_element]" by simp
  have h2: "has_class ''age'' ([sample_age_element] ! 0)"
    by (simp add: has_class_def classes_def sample_age_element_def ascii_whitespace_def)
  have h3: "ToNumber sample_host (JString (innerHTML ([sample_age_element] ! 0))) = Num 1699992801"
    by (simp add: sample_age_element_def sample_host_def sample_decimal_1699992801)
  have a: "js_sub sample_host (fst (now sample_host (\<lambda>n. 1700000000000))) (Num 1699992801)
      = Num 7199"
    by (simp add: now_def to_double_def sample_host_def MAX_VALUE_def)
  have c: "classes sample_age_element = [''age'']"
    by (simp add: classes_def sample_age_element_def ascii_whitespace_def)
  show ?thesis
    using h1 h2 h3 a c
      replace_timestamps_age_band [OF h1 h2 h3, of "\<lambda>n. 1700000000000"]
    by (simp add: Let_def band_class_def)
qed

section \<open>Properties of toggle\<close>

lemma getElementById_found:
  "getElementById i page = Some k \<Longrightarrow> k < length page"
  by (induction page arbitrary: k) (auto split: if_splits)

lemma getElementById_update:
  "getElementById i page = Some k \<Longrightarrow> ident e = ident (page ! k) \<Longrightarrow>
   getElementById i (page[k := e]) = Some k"
proof (induction page arbitrary: k)
  case Nil
  then show ?case by simp
next
  case (Cons a page)
  show ?case
  proof (cases "ident a = i \<and> i \<noteq> []")
    case True
    with Cons.prems show ?thesis by auto
  next
    case False
    with Cons.prems obtain j where j: "getElementById i page = Some j" "k = Suc j"
      by auto
    with Cons.IH [of j] Cons.prems(2) False show ?thesis by simp
  qed
qed

text \<open>
  C5: on an element found by its identifier, \<open>toggle\<close> is its own inverse on the two
  states it handles: from the default display it hides the element, from \<open>none\<close> it
  shows it, and a second call restores the page; in any other display state one call
  and two calls leave the page as it was.
\<close>

theorem toggle_twice:
  assumes "getElementById i page = Some k"
  shows "(display (page ! k) = '''' \<longrightarrow>
            display (snd (toggle i page) ! k) = ''none'' \<and>
            toggle i (snd (toggle i page)) = (None, page)) \<and>
         (display (page ! k) = ''none'' \<longrightarrow>
            display (snd (toggle i page) ! k) = '''' \<and>
            toggle i (snd (toggle i page)) = (None, page)) \<and>
         (display (page ! k) \<noteq> '''' \<and> display (page ! k) \<noteq> ''none'' \<longrightarrow>
            toggle i page = (None, page) \<and>
            toggle i (snd (toggle i page)) = (None, page))"
proof -
  have k: "k < length page" using assms by (rule getElementById_found)
  have hide: "toggle i page = (None, page[k := (page ! k)\<lparr>display := ''none''\<rparr>])"
    if "display (page ! k) = ''''"
    using assms that by (simp add: toggle_def)
  have show': "toggle i page = (None, page[k := (page ! k)\<lparr>display := ''''\<rparr>])"
    if "display (page ! k) = ''none''"
    using assms that by (simp add: toggle_def)
  have other: "toggle i page = (None, page)"
    if "display (page ! k) \<noteq> ''''" "display (page ! k) \<noteq> ''none''"
    using assms that by (simp add: toggle_def)
  have back1: "toggle i (page[k := (page ! k)\<lparr>display := ''none''\<rparr>]) = (None, page)"
    if "display (page ! k) = ''''"
  proof -
    have "getElementById i (page[k := (page ! k)\<lparr>display := ''none''\<rparr>]) = Some k"
      using assms by (rule getElementById_update) simp
    moreover have "(page ! k)\<lparr>display := ''''\<rparr> = page ! k"
      using that by simp
    ultimately show ?thesis
      using k by (simp add: toggle_def)
  qed
  have back2: "toggle i (page[k := (page ! k)\<lparr>display := ''''\<rparr>]) = (None, page)"
    if "display (page ! k) = ''none''"
  proof -
    have "getElementById i (page[k := (page ! k)\<lparr>display := ''''\<rparr>]) = Some k"
      using assms by (rule getElementById_update) simp
    moreover have "(page ! k)\<lparr>display := ''none''\<rparr> = page ! k"
      using that by simp
    ultimately show ?thesis
      using k by (simp add: toggle_def)
  qed
  show ?thesis
    using hide show' other back1 back2 k by simp
qed

theorem toggle_twice_witness:
  "getElementById ''details'' [sample_details_element] = Some 0 \<and>
   display (snd (toggle ''details'' [sample_details_element]) ! 0) = ''none'' \<and>
   toggle ''details'' (snd (toggle ''details'' [sample_details_element]))
     = (None, [sample_details_element])"
proof -
  have h: "getElementById ''details'' [sample_details_element] = Some 0"
    by (simp add: sample_details_element_def)
  have d: "display ([sample_details_element] ! 0) = []"
    by (simp add: sample_details_element_def)
  show ?thesis
    using h d toggle_twice [OF h] by simp
qed

section \<open>Stable sorting\<close>

lemma mset_insert_by: "mset (insert_by le x ys) = add_mset x (mset ys)"
  by (induction ys) simp_all

lemma mset_sort_by: "mset (sort_by le xs) = mset xs"
  by (induction xs) (simp_all add: mset_insert_by)

lemma set_insert_by: "set (insert_by le x ys) = insert x (set ys)"
  using mset_insert_by [of le x ys] by (metis set_mset_add_mset_insert set_mset_mset)

lemma set_sort_by: "set (sort_by le xs) = set xs"
  using mset_sort_by [of le xs] by (metis set_mset_mset)

lemma sorted_insert_by:
  assumes "total_on A le" and "trans_on A le" and "x \<in> A" and "set ys \<subseteq> A"
    and "sorted_wrt le ys"
  shows "sorted_wrt le (insert_by le x ys)"
  using assms(4,5)
proof (induction ys)
  case Nil
  then show ?case by simp
next
  case (Cons y ys)
  show ?case
  proof (cases "le x y")
    case True
    have "le x z" if "z \<in> set ys" for z
    proof -
      have "le y z" using Cons.prems(2) that by simp
      with True show ?thesis
        using assms(2,3) Cons.prems(1) that unfolding trans_on_def by auto
    qed
    with True Cons.prems(2) show ?thesis by simp
  next
    case False
    then have "le y x"
      using assms(1,3) Cons.prems(1) unfolding total_on_def by auto
    with False Cons show ?thesis by (auto simp: set_insert_by)
  qed
qed

lemma sorted_sort_by:
  assumes "total_on A le" and "trans_on A le" and "set xs \<subseteq> A"
  shows "sorted_wrt le (sort_by le xs)"
  using assms(3)
proof (induction xs)
  case Nil
  then show ?case by simp
next
  case (Cons x xs)
  then show ?case
    using sorted_insert_by [OF assms(1,2), of x "sort_by le xs"]
    by (simp add: set_sort_by)
qed

lemma filter_insert_by:
  assumes "\<And>y. y \<in> set ys \<Longrightarrow> P x \<Longrightarrow> P y \<Longrightarrow> le x y"
  shows "filter P (insert_by le x ys) = (if P x then x # filter P ys else filter P ys)"
  using assms by (induction ys) auto

lemma filter_sort_by:
  assumes "\<And>x y. x \<in> set xs \<Longrightarrow> y \<in> set xs \<Longrightarrow> P x \<Longrightarrow> P y \<Longrightarrow> le x y"
  shows "filter P (sort_by le xs) = filter P xs"
  using assms
proof (induction xs)
  case Nil
  then show ?case by simp
next
  case (Cons x xs)
  have "filter P (insert_by le x (sort_by le xs)) =
        (if P x then x # filter P (sort_by le xs) else filter P (sort_by le xs))"
    by (rule filter_insert_by) (use Cons.prems in \<open>simp add: set_sort_by\<close>)
  moreover have "filter P (sort_by le xs) = filter P xs"
    by (rule Cons.IH) (use Cons.prems in simp)
  ultimately show ?case by simp
qed

text \<open>Two sorted lists with the same elements and the same order among ties are equal.\<close>

lemma stable_sorted_unique:
  assumes "total_on A le"
    and "sorted_wrt le xs" and "sorted_wrt le ys" and "mset xs = mset ys"
    and "set xs \<subseteq> A"
    and "\<And>v. v \<in> A \<Longrightarrow> filter (\<lambda>y. le v y \<and> le y v) xs = filter (\<lambda>y. le v y \<and> le y v) ys"
  shows "xs = ys"
  using assms(2-6)
proof (induction xs arbitrary: ys)
  case Nil
  then show ?case by simp
next
  case (Cons x xs)
  from Cons.prems(3) obtain y ys' where ys: "ys = y # ys'"
    by (cases ys) auto
  have xA: "x \<in> A" using Cons.prems(4) by simp
  have sets: "set (x # xs) = set (y # ys')"
    using Cons.prems(3) ys by (metis set_mset_mset)
  then have yA: "y \<in> A" using Cons.prems(4) by auto
  have refl: "le v v" if "v \<in> A" for v
    using assms(1) that unfolding total_on_def by auto
  have xy: "le x y"
  proof (cases "y = x")
    case True
    then show ?thesis using refl xA by simp
  next
    case False
    then have "y \<in> set xs" using sets by auto
    then show ?thesis using Cons.prems(1) by simp
  qed
  have yx: "le y x"
  proof (cases "y = x")
    case True
    then show ?thesis using refl xA by simp
  next
    case False
    then have "x \<in> set ys'" using sets by auto
    then show ?thesis using Cons.prems(2) ys by simp
  qed
  have "filter (\<lambda>z. le x z \<and> le z x) (x # xs) = filter (\<lambda>z. le x z \<and> le z x) (y # ys')"
    using Cons.prems(5) [OF xA] ys by simp
  then have eq: "x = y"
    using xy yx refl [OF xA] by simp
  have "xs = ys'"
  proof (rule Cons.IH)
    show "sorted_wrt le xs" using Cons.prems(1) by simp
    show "sorted_wrt le ys'" using Cons.prems(2) ys by simp
    show "mset xs = mset ys'" using Cons.prems(3) ys eq by simp
    show "set xs \<subseteq> A" using Cons.prems(4) by simp
    show "filter (\<lambda>y. le v y \<and> le y v) xs = filter (\<lambda>y. le v y \<and> le y v) ys'"
      if "v \<in> A" for v
      using Cons.prems(5) [OF that] ys eq by (simp split: if_splits)
  qed
  with eq ys show ?case by simp
qed

text \<open>Without ties, a sorted list is determined by its elements.\<close>

lemma sorted_unique:
  assumes "\<And>x y. x \<in> A \<Longrightarrow> y \<in> A \<Longrightarrow> le x y \<Longrightarrow> le y x \<Longrightarrow> x = y"
    and "sorted_wrt le xs" and "sorted_wrt le ys" and "mset xs = mset ys"
    and "set xs \<subseteq> A"
  shows "xs = ys"
  using assms(2-5)
proof (induction xs arbitrary: ys)
  case Nil
  then show ?case by simp
next
  case (Cons x xs)
  from Cons.prems(3) obtain y ys' where ys: "ys = y # ys'"
    by (cases ys) auto
  have sets: "set (x # xs) = set (y # ys')"
    using Cons.prems(3) ys by (metis set_mset_mset)
  have eq: "x = y"
  proof (rule ccontr)
    assume ne: "x \<noteq> y"
    then have "y \<in> set xs" and "x \<in> set ys'" using sets by auto
    then have "le x y" and "le y x"
      using Cons.prems(1,2) ys by auto
    moreover have "x \<in> A" and "y \<in> A"
      using Cons.prems(4) \<open>y \<in> set xs\<close> by auto
    ultimately show False using assms(1) ne by blast
  qed
  have "xs = ys'"
    by (rule Cons.IH) (use Cons.prems ys eq in auto)
  with eq ys show ?case by simp
qed

lemma insert_by_cong:
  assumes "\<And>y. y \<in> set ys \<Longrightarrow> le x y = le' x y"
  shows "insert_by le x ys = insert_by le' x ys"
  using assms by (induction ys) auto

lemma sort_by_cong:
  assumes "\<And>x y. x \<in> set xs \<Longrightarrow> y \<in> set xs \<Longrightarrow> le x y = le' x y"
  shows "sort_by le xs = sort_by le' xs"
  using assms
proof (induction xs)
  case Nil
  then show ?case by simp
next
  case (Cons x xs)
  have "sort_by le xs = sort_by le' xs"
    by (rule Cons.IH) (use Cons.prems in simp)
  moreover have "insert_by le x (sort_by le' xs) = insert_by le' x (sort_by le' xs)"
    by (rule insert_by_cong) (use Cons.prems in \<open>simp add: set_sort_by\<close>)
  ultimately show ?case by simp
qed

lemma total_on_converse: "total_on A le \<Longrightarrow> total_on A (\<lambda>a b. le b a)"
  unfolding total_on_def by blast

lemma trans_on_converse: "trans_on A le \<Longrightarrow> trans_on A (\<lambda>a b. le b a)"
  unfolding trans_on_def by blast

text \<open>Sorting one way, the other way and the first way again gives the first result.\<close>

lemma sort_by_there_and_back:
  assumes tot: "total_on A le" and tr: "trans_on A le" and sub: "set xs \<subseteq> A"
  shows "sort_by le (sort_by (\<lambda>a b. le b a) (sort_by le xs)) = sort_by le xs"
proof (rule stable_sorted_unique [OF tot])
  let ?ge = "\<lambda>a b. le b a"
  let ?first = "sort_by le xs"
  let ?second = "sort_by ?ge ?first"
  have s1: "set ?first \<subseteq> A" and s2: "set ?second \<subseteq> A"
    using sub by (simp_all add: set_sort_by)
  show "sorted_wrt le (sort_by le ?second)"
    by (rule sorted_sort_by [OF tot tr s2])
  show "sorted_wrt le ?first"
    by (rule sorted_sort_by [OF tot tr sub])
  show "mset (sort_by le ?second) = mset ?first"
    by (simp add: mset_sort_by)
  show "set (sort_by le ?second) \<subseteq> A"
    using sub by (simp add: set_sort_by)
  show "filter (\<lambda>y. le v y \<and> le y v) (sort_by le ?second) = filter (\<lambda>y. le v y \<and> le y v) ?first"
    if v: "v \<in> A" for v
  proof -
    have "filter (\<lambda>y. le v y \<and> le y v) (sort_by le ?second) = filter (\<lambda>y. le v y \<and> le y v) ?second"
    proof (rule filter_sort_by)
      fix x y
      assume "x \<in> set ?second" "y \<in> set ?second" "le v x \<and> le x v" "le v y \<and> le y v"
      then show "le x y"
        using tr v s2 unfolding trans_on_def by blast
    qed
    also have "\<dots> = filter (\<lambda>y. le v y \<and> le y v) ?first"
    proof (rule filter_sort_by)
      fix x y
      assume "x \<in> set ?first" "y \<in> set ?first" "le v x \<and> le x v" "le v y \<and> le y v"
      then show "le y x"
        using tr v s1 unfolding trans_on_def by blast
    qed
    finally show ?thesis .
  qed
qed

text \<open>Without ties, sorting the other way reverses the list.\<close>

lemma sort_by_reverse:
  assumes tot: "total_on A le" and tr: "trans_on A le" and sub: "set xs \<subseteq> A"
    and anti: "\<And>x y. x \<in> A \<Longrightarrow> y \<in> A \<Longrightarrow> le x y \<Longrightarrow> le y x \<Longrightarrow> x = y"
  shows "sort_by (\<lambda>a b. le b a) (sort_by le xs) = rev (sort_by le xs)"
proof (rule sorted_unique [where A = A and le = "\<lambda>a b. le b a"])
  let ?ge = "\<lambda>a b. le b a"
  have s1: "set (sort_by le xs) \<subseteq> A"
    using sub by (simp add: set_sort_by)
  show "x = y" if "x \<in> A" "y \<in> A" "le y x" "le x y" for x y
    using anti that by blast
  show "sorted_wrt ?ge (sort_by ?ge (sort_by le xs))"
    by (rule sorted_sort_by [OF total_on_converse [OF tot] trans_on_converse [OF tr] s1])
  show "sorted_wrt ?ge (rev (sort_by le xs))"
    using sorted_sort_by [OF tot tr sub] by (simp add: sorted_wrt_rev)
  show "mset (sort_by ?ge (sort_by le xs)) = mset (rev (sort_by le xs))"
    by (simp add: mset_sort_by)
  show "set (sort_by ?ge (sort_by le xs)) \<subseteq> A"
    using sub by (simp add: set_sort_by)
qed

text \<open>The sort of the model is the pure insertion sort when no comparison throws.\<close>

lemma insert_sorted_pure:
  assumes "\<And>y. y \<in> set ys \<Longrightarrow> \<exists>k. cmp x y = Inr k \<and> (k \<le> 0) = le x y"
  shows "insert_sorted cmp x ys = Inr (insert_by le x ys)"
  using assms
proof (induction ys)
  case Nil
  then show ?case by simp
next
  case (Cons y ys)
  from Cons.prems [of y] obtain k where k: "cmp x y = Inr k" "(k \<le> 0) = le x y"
    by auto
  have "insert_sorted cmp x ys = Inr (insert_by le x ys)"
    by (rule Cons.IH) (use Cons.prems in simp)
  with k show ?case by simp
qed

lemma Array_sort_pure:
  assumes "\<And>x y. x \<in> set xs \<Longrightarrow> y \<in> set xs \<Longrightarrow> \<exists>k. cmp x y = Inr k \<and> (k \<le> 0) = le x y"
  shows "Array_sort cmp xs = Inr (sort_by le xs)"
  using assms
proof (induction xs)
  case Nil
  then show ?case by simp
next
  case (Cons x xs)
  have "Array_sort cmp xs = Inr (sort_by le xs)"
    by (rule Cons.IH) (use Cons.prems in simp)
  moreover have "insert_sorted cmp x (sort_by le xs) = Inr (insert_by le x (sort_by le xs))"
    by (rule insert_sorted_pure) (use Cons.prems in \<open>simp add: set_sort_by\<close>)
  ultimately show ?case by simp
qed

text \<open>Whatever the comparator does, a sort that returns has permuted its input.\<close>

lemma mset_insert_sorted:
  "insert_sorted cmp x ys = Inr zs \<Longrightarrow> mset zs = add_mset x (mset ys)"
  by (induction ys arbitrary: zs) (auto split: sum.splits if_splits)

lemma mset_Array_sort: "Array_sort cmp xs = Inr ys \<Longrightarrow> mset ys = mset xs"
  by (induction xs arbitrary: ys) (auto split: sum.splits dest: mset_insert_sorted)

lemma fold_appendChild:
  "distinct xs \<Longrightarrow> fold appendChild xs cs = filter (\<lambda>c. c \<notin> set xs) cs @ xs"
proof (induction xs arbitrary: cs)
  case Nil
  then show ?case by simp
next
  case (Cons x xs)
  have "filter (\<lambda>c. c \<notin> set xs) (removeAll x cs) = filter (\<lambda>c. c \<notin> set (x # xs)) cs"
    by (induction cs) auto
  with Cons show ?case by (simp add: appendChild_def)
qed

lemma fold_appendChild_permutation:
  assumes "distinct cs" and "mset xs = mset cs"
  shows "fold appendChild xs cs = xs"
proof -
  have "distinct xs" using assms by (metis mset_eq_imp_distinct_iff)
  moreover have "set xs = set cs" using assms(2) by (metis set_mset_mset)
  ultimately show ?thesis by (simp add: fold_appendChild)
qed

section \<open>The comparator and three calls of sortTable\<close>

lemma js_lt_asym: "js_lt a b \<Longrightarrow> \<not> js_lt b a"
  by (cases a; cases b) auto

lemma js_lt_negtrans:
  "a \<noteq> NaN \<Longrightarrow> b \<noteq> NaN \<Longrightarrow> c \<noteq> NaN \<Longrightarrow> \<not> js_lt a b \<Longrightarrow> \<not> js_lt b c \<Longrightarrow> \<not> js_lt a c"
  by (cases a; cases b; cases c) auto

lemma js_lt_connex: "a \<noteq> NaN \<Longrightarrow> b \<noteq> NaN \<Longrightarrow> \<not> js_lt a b \<Longrightarrow> \<not> js_lt b a \<Longrightarrow> a = b"
  by (cases a; cases b) auto

lemma js_less_asym: "js_less H u v \<Longrightarrow> \<not> js_less H v u"
  by (cases u; cases v) (auto dest: js_lt_asym)

text \<open>The values of one column are all strings, or all numbers.\<close>

lemma sort_value_kind:
  assumes "sort_value H c dt r = Inr v"
  shows "if dt = ''number'' then (\<exists>n. v = JNumber n) else (\<exists>s. v = JString s)"
  using assms by (auto simp: sort_value_def Let_def split: if_splits option.splits)

lemma ascending_total: "total_on A (ascending H c dt rows_of)"
  unfolding total_on_def ascending_def using js_less_asym by blast

lemma value_at_kind:
  assumes "\<exists>v. sort_value H c dt (rows_of a) = Inr v \<and> v \<noteq> JNumber NaN"
  shows "if dt = ''number'' then (\<exists>n. value_at H c dt rows_of a = JNumber n \<and> n \<noteq> NaN)
         else (\<exists>s. value_at H c dt rows_of a = JString s)"
proof -
  from assms obtain v where v: "sort_value H c dt (rows_of a) = Inr v" "v \<noteq> JNumber NaN"
    by blast
  then have "value_at H c dt rows_of a = v" by (simp add: value_at_def)
  with sort_value_kind [OF v(1)] v(2) show ?thesis by (auto split: if_splits)
qed

lemma ascending_trans:
  assumes "\<forall>a \<in> A. \<exists>v. sort_value H c dt (rows_of a) = Inr v \<and> v \<noteq> JNumber NaN"
  shows "trans_on A (ascending H c dt rows_of)"
  unfolding trans_on_def
proof (intro ballI impI)
  fix x y z
  assume A: "x \<in> A" "y \<in> A" "z \<in> A"
    and xy: "ascending H c dt rows_of x y" and yz: "ascending H c dt rows_of y z"
  note kx = value_at_kind [where rows_of = rows_of and a = x, OF assms [rule_format, OF A(1)]]
  note ky = value_at_kind [where rows_of = rows_of and a = y, OF assms [rule_format, OF A(2)]]
  note kz = value_at_kind [where rows_of = rows_of and a = z, OF assms [rule_format, OF A(3)]]
  show "ascending H c dt rows_of x z"
  proof (cases "dt = ''number''")
    case True
    with kx ky kz obtain nx ny nz where
      "value_at H c dt rows_of x = JNumber nx" "nx \<noteq> NaN"
      "value_at H c dt rows_of y = JNumber ny" "ny \<noteq> NaN"
      "value_at H c dt rows_of z = JNumber nz" "nz \<noteq> NaN"
      by auto
    with xy yz show ?thesis
      using js_lt_negtrans [of nz ny nx] by (auto simp: ascending_def)
  next
    case False
    with kx ky kz obtain sx sy sz where
      "value_at H c dt rows_of x = JString sx"
      "value_at H c dt rows_of y = JString sy"
      "value_at H c dt rows_of z = JString sz"
      by auto
    with xy yz show ?thesis
      by (auto simp: ascending_def)
  qed
qed

lemma ascending_antisym:
  assumes ok: "\<forall>a \<in> A. \<exists>v. sort_value H c dt (rows_of a) = Inr v \<and> v \<noteq> JNumber NaN"
    and A: "x \<in> A" "y \<in> A"
    and xy: "ascending H c dt rows_of x y" and yx: "ascending H c dt rows_of y x"
  shows "sort_value H c dt (rows_of x) = sort_value H c dt (rows_of y)"
proof -
  note kx = value_at_kind [where rows_of = rows_of and a = x, OF ok [rule_format, OF A(1)]]
  note ky = value_at_kind [where rows_of = rows_of and a = y, OF ok [rule_format, OF A(2)]]
  have "value_at H c dt rows_of x = value_at H c dt rows_of y"
  proof (cases "dt = ''number''")
    case True
    with kx ky obtain nx ny where
      "value_at H c dt rows_of x = JNumber nx" "nx \<noteq> NaN"
      "value_at H c dt rows_of y = JNumber ny" "ny \<noteq> NaN"
      by auto
    with xy yx show ?thesis
      using js_lt_connex [of nx ny] by (auto simp: ascending_def)
  next
    case False
    with kx ky obtain sx sy where
      "value_at H c dt rows_of x = JString sx"
      "value_at H c dt rows_of y = JString sy"
      by auto
    with xy yx show ?thesis
      by (auto simp: ascending_def)
  qed
  moreover from ok A obtain vx vy where
    "sort_value H c dt (rows_of x) = Inr vx" "sort_value H c dt (rows_of y) = Inr vy"
    by blast
  ultimately show ?thesis by (simp add: value_at_def)
qed

lemma compare_rows_pure:
  assumes "\<exists>v. sort_value H c dt (row_at d a) = Inr v"
    and "\<exists>v. sort_value H c dt (row_at d b) = Inr v"
  shows "\<exists>k. compare_rows H d c dt a b = Inr k \<and>
             (k \<le> 0) = in_direction (currentSortDirection d) (ascending H c dt (row_at d)) a b"
proof -
  from assms obtain va vb where
    v: "sort_value H c dt (row_at d a) = Inr va" "sort_value H c dt (row_at d b) = Inr vb"
    by blast
  have asym: "js_less H va vb \<Longrightarrow> \<not> js_less H vb va"
    by (rule js_less_asym)
  show ?thesis
  proof (cases "currentSortDirection d")
    case asc
    with v show ?thesis
      by (simp add: compare_rows_def three_way_def ascending_def value_at_def)
  next
    case desc
    with v asym show ?thesis
      by (auto simp: compare_rows_def three_way_def ascending_def value_at_def)
  qed
qed

lemma flip_eq: "(if dir = asc then desc else asc) = flip dir"
  by (cases dir) simp_all

lemma in_direction_flip_apply: "in_direction (flip dir) le a b = in_direction dir le b a"
  by (cases dir) simp_all

lemma in_direction_flip: "in_direction (flip dir) le = (\<lambda>a b. in_direction dir le b a)"
  by (intro ext) (rule in_direction_flip_apply)

lemma trans_on_in_direction: "trans_on A le \<Longrightarrow> trans_on A (in_direction dir le)"
proof (cases dir)
  case asc
  assume "trans_on A le"
  moreover have "in_direction asc le = le" by (intro ext) simp
  ultimately show ?thesis using asc by simp
next
  case desc
  assume "trans_on A le"
  then have "trans_on A (\<lambda>a b. le b a)" by (rule trans_on_converse)
  moreover have "in_direction desc le = (\<lambda>a b. le b a)" by (intro ext) simp
  ultimately show ?thesis using desc by simp
qed

lemma total_on_in_direction: "total_on A le \<Longrightarrow> total_on A (in_direction dir le)"
  unfolding total_on_def by (cases dir) auto

lemma sortTable_returns:
  assumes tbl: "repos_table d = Some tbl" "tbody tbl = Some rows"
    and dist: "distinct rows"
    and ok: "\<forall>a \<in> set rows. \<exists>v. sort_value H c dt (row_at d a) = Inr v"
    and dir': "dir' = (if currentSortColumn d = c then flip (currentSortDirection d) else asc)"
    and rows': "rows' = sort_by (in_direction dir' (ascending H c dt (row_at d))) rows"
  shows "\<exists>d'. sortTable H c dt d = (None, d') \<and>
           repos_table d' = Some (tbl\<lparr>tbody := Some rows'\<rparr>) \<and>
           row_at d' = row_at d \<and>
           currentSortColumn d' = c \<and>
           currentSortDirection d' = dir'"
proof -
  define d1 where "d1 = (if currentSortColumn d = c
                         then d\<lparr>currentSortDirection :=
                                  (if currentSortDirection d = asc then desc else asc)\<rparr>
                         else d\<lparr>currentSortDirection := asc, currentSortColumn := c\<rparr>)"
  have d1: "row_at d1 = row_at d" "currentSortDirection d1 = dir'" "currentSortColumn d1 = c"
    by (simp_all add: d1_def dir' flip_eq)
  have "Array_sort (compare_rows H d1 c dt) rows =
        Inr (sort_by (in_direction (currentSortDirection d1) (ascending H c dt (row_at d1))) rows)"
  proof (rule Array_sort_pure)
    fix x y
    assume "x \<in> set rows" "y \<in> set rows"
    then show "\<exists>k. compare_rows H d1 c dt x y = Inr k \<and>
        (k \<le> 0) = in_direction (currentSortDirection d1) (ascending H c dt (row_at d1)) x y"
      using ok d1(1) by (intro compare_rows_pure) auto
  qed
  then have sorted: "Array_sort (compare_rows H d1 c dt) rows = Inr rows'"
    by (simp add: d1 rows')
  have "mset rows' = mset rows"
    by (simp add: rows' mset_sort_by)
  then have moved: "fold appendChild rows' rows = rows'"
    using dist by (intro fold_appendChild_permutation) simp_all
  have "sortTable H c dt d =
      (None, updateSortIndicators c (d1\<lparr>repos_table := Some (tbl\<lparr>tbody := Some rows'\<rparr>)\<rparr>))"
    unfolding sortTable_def Let_def d1_def [symmetric]
    by (simp add: tbl sorted moved)
  then show ?thesis
    using d1 by (simp add: updateSortIndicators_def)
qed

text \<open>
  C4, amended: when the table has distinct rows that all yield a value in the column, none
  of them NaN, three calls in a row with the same column and data type all return
  without an exception; the first and the second each leave a permutation of the rows,
  sorted by value in the direction of the sort state; the third restores the row order
  of the first; and if no two rows have the same value, the second call yields the row
  order of the first reversed. When the column was not the remembered one, the first
  call sorts ascending and the second descending.
\<close>

theorem sortTable_three_calls:
  assumes tbl: "repos_table d = Some tbl" "tbody tbl = Some rows"
    and dist: "distinct rows"
    and ok: "\<forall>a \<in> set rows. \<exists>v. sort_value H c dt (row_at d a) = Inr v \<and> v \<noteq> JNumber NaN"
  shows "let r1 = sortTable H c dt d; d1 = snd r1;
             r2 = sortTable H c dt d1; d2 = snd r2;
             r3 = sortTable H c dt d2; d3 = snd r3;
             up = ascending H c dt (row_at d)
         in fst r1 = None \<and> fst r2 = None \<and> fst r3 = None \<and>
            mset (table_rows d1) = mset rows \<and>
            mset (table_rows d2) = mset rows \<and>
            sorted_wrt (in_direction (currentSortDirection d1) up) (table_rows d1) \<and>
            sorted_wrt (in_direction (currentSortDirection d2) up) (table_rows d2) \<and>
            table_rows d3 = table_rows d1 \<and>
            ((\<forall>a \<in> set rows. \<forall>b \<in> set rows.
                 a \<noteq> b \<longrightarrow> sort_value H c dt (row_at d a) \<noteq> sort_value H c dt (row_at d b))
               \<longrightarrow> table_rows d2 = rev (table_rows d1)) \<and>
            (currentSortColumn d \<noteq> c \<longrightarrow>
               currentSortDirection d1 = asc \<and> currentSortDirection d2 = desc \<and>
               sorted_wrt up (table_rows d1) \<and>
               sorted_wrt (\<lambda>a b. up b a) (table_rows d2))"
proof -
  define le where "le = ascending H c dt (row_at d)"
  define dir1 where "dir1 = (if currentSortColumn d = c then flip (currentSortDirection d) else asc)"
  define rows1 where "rows1 = sort_by (in_direction dir1 le) rows"
  define rows2 where "rows2 = sort_by (in_direction (flip dir1) le) rows1"
  define rows3 where "rows3 = sort_by (in_direction dir1 le) rows2"
  have ok': "\<forall>a \<in> set rows. \<exists>v. sort_value H c dt (row_at d a) = Inr v"
    using ok by blast
  have perm1: "mset rows1 = mset rows" and perm2: "mset rows2 = mset rows"
    by (simp_all add: rows1_def rows2_def mset_sort_by)
  have set1: "set rows1 = set rows" and set2: "set rows2 = set rows"
    using perm1 perm2 by (metis set_mset_mset)+
  have dist1: "distinct rows1" and dist2: "distinct rows2"
    using perm1 perm2 dist by (metis mset_eq_imp_distinct_iff)+
  from sortTable_returns [OF tbl dist ok' dir1_def rows1_def [unfolded le_def]]
  obtain d1 where d1: "sortTable H c dt d = (None, d1)"
    "repos_table d1 = Some (tbl\<lparr>tbody := Some rows1\<rparr>)" "row_at d1 = row_at d"
    "currentSortColumn d1 = c" "currentSortDirection d1 = dir1"
    by blast
  have "\<exists>d2. sortTable H c dt d1 = (None, d2) \<and>
           repos_table d2 = Some (tbl\<lparr>tbody := Some rows1\<rparr>\<lparr>tbody := Some rows2\<rparr>) \<and>
           row_at d2 = row_at d1 \<and> currentSortColumn d2 = c \<and>
           currentSortDirection d2 = flip dir1"
    by (rule sortTable_returns [OF d1(2) _ dist1])
       (use ok' d1 set1 in \<open>simp_all add: rows2_def le_def\<close>)
  then obtain d2 where d2: "sortTable H c dt d1 = (None, d2)"
    "repos_table d2 = Some (tbl\<lparr>tbody := Some rows1\<rparr>\<lparr>tbody := Some rows2\<rparr>)"
    "row_at d2 = row_at d1" "currentSortColumn d2 = c" "currentSortDirection d2 = flip dir1"
    by blast
  have "\<exists>d3. sortTable H c dt d2 = (None, d3) \<and>
           repos_table d3 =
             Some (tbl\<lparr>tbody := Some rows1\<rparr>\<lparr>tbody := Some rows2\<rparr>\<lparr>tbody := Some rows3\<rparr>) \<and>
           row_at d3 = row_at d2 \<and> currentSortColumn d3 = c \<and>
           currentSortDirection d3 = flip (flip dir1)"
    by (rule sortTable_returns [OF d2(2) _ dist2])
       (use ok' d1 d2 set2 in \<open>simp_all add: rows3_def le_def, cases dir1, simp_all\<close>)
  then obtain d3 where d3: "sortTable H c dt d2 = (None, d3)"
    "repos_table d3 =
       Some (tbl\<lparr>tbody := Some rows1\<rparr>\<lparr>tbody := Some rows2\<rparr>\<lparr>tbody := Some rows3\<rparr>)"
    by blast
  have t1: "table_rows d1 = rows1" and t2: "table_rows d2 = rows2" and t3: "table_rows d3 = rows3"
    using d1(2) d2(2) d3(2) by (simp_all add: table_rows_def)
  have tot: "total_on (set rows) (in_direction dir1 le)"
    unfolding le_def by (rule total_on_in_direction [OF ascending_total])
  have tr: "trans_on (set rows) (in_direction dir1 le)"
    unfolding le_def by (rule trans_on_in_direction [OF ascending_trans [OF ok]])
  have sorted1: "sorted_wrt (in_direction dir1 le) rows1"
    unfolding rows1_def by (rule sorted_sort_by [OF tot tr]) simp
  have sorted2: "sorted_wrt (in_direction (flip dir1) le) rows2"
    unfolding rows2_def in_direction_flip
    by (rule sorted_sort_by [OF total_on_converse [OF tot] trans_on_converse [OF tr]])
       (simp add: set1)
  have restored: "rows3 = rows1"
    unfolding rows3_def rows2_def rows1_def in_direction_flip
    by (rule sort_by_there_and_back [OF tot tr]) simp
  have reversed: "rows2 = rev rows1"
    if ties: "\<forall>a \<in> set rows. \<forall>b \<in> set rows.
          a \<noteq> b \<longrightarrow> sort_value H c dt (row_at d a) \<noteq> sort_value H c dt (row_at d b)"
    unfolding rows2_def rows1_def in_direction_flip
  proof (rule sort_by_reverse [OF tot tr])
    show "set rows \<subseteq> set rows" by simp
    fix x y
    assume xy: "x \<in> set rows" "y \<in> set rows"
      and le1: "in_direction dir1 le x y" and le2: "in_direction dir1 le y x"
    have "le x y" "le y x"
      using le1 le2 by (cases dir1; simp)+
    then have "sort_value H c dt (row_at d x) = sort_value H c dt (row_at d y)"
      unfolding le_def by (rule ascending_antisym [OF ok xy])
    with ties xy show "x = y" by blast
  qed
  have fresh: "dir1 = asc \<and> flip dir1 = desc \<and>
      sorted_wrt le rows1 \<and> sorted_wrt (\<lambda>a b. le b a) rows2"
    if "currentSortColumn d \<noteq> c"
  proof -
    have a: "dir1 = asc" using that by (simp add: dir1_def)
    have "in_direction asc le = le" by (intro ext) simp
    moreover have "in_direction desc le = (\<lambda>a b. le b a)" by (intro ext) simp
    ultimately show ?thesis using sorted1 sorted2 a by simp
  qed
  show ?thesis
    unfolding Let_def le_def [symmetric]
    using d1(1,5) d2(1,5) d3(1) t1 t2 t3 perm1 perm2 sorted1 sorted2 restored reversed fresh
    by simp
qed

section \<open>String sorting\<close>

















section \<open>Properties of sortTable\<close>

text \<open>
  C3: on a page that has the table and its body, for every column index, data type and
  prior sort state: if the column index is the remembered column, the direction flips
  (\<open>asc\<close> to \<open>desc\<close>, \<open>desc\<close> to \<open>asc\<close>) and the remembered column stays; otherwise
  the direction becomes \<open>asc\<close> and the column index is remembered. This holds also when
  the comparator throws afterwards.
\<close>

theorem sortTable_direction_policy:
  assumes "repos_table d = Some tbl" and "tbody tbl = Some rows"
  shows "let d' = snd (sortTable H columnIndex dataType d)
         in (currentSortColumn d = columnIndex \<longrightarrow>
               currentSortColumn d' = currentSortColumn d \<and>
               (currentSortDirection d = asc \<longrightarrow> currentSortDirection d' = desc) \<and>
               (currentSortDirection d = desc \<longrightarrow> currentSortDirection d' = asc)) \<and>
            (currentSortColumn d \<noteq> columnIndex \<longrightarrow>
               currentSortColumn d' = columnIndex \<and> currentSortDirection d' = asc)"
  using assms
  by (cases "currentSortDirection d")
     (simp_all add: sortTable_def Let_def updateSortIndicators_def split: sum.splits)

theorem sortTable_direction_policy_witness:
  "repos_table sample_document = Some \<lparr>tbody = Some [0, 1, 2]\<rparr> \<and>
   tbody \<lparr>tbody = Some [0, 1, 2]\<rparr> = Some [0, 1, 2] \<and>
   currentSortColumn sample_document \<noteq> 1 \<and>
   currentSortColumn (snd (sortTable sample_host 1 ''number'' sample_document)) = 1 \<and>
   currentSortDirection (snd (sortTable sample_host 1 ''number'' sample_document)) = asc"
proof -
  have h1: "repos_table sample_document = Some \<lparr>tbody = Some [0, 1, 2]\<rparr>"
    by (simp add: sample_document_def)
  have h2: "tbody \<lparr>tbody = Some [0, 1, 2]\<rparr> = Some [0, 1, 2]" by simp
  have c: "currentSortColumn sample_document \<noteq> 1" by (simp add: sample_document_def)
  show ?thesis
    using h1 c sortTable_direction_policy [OF h1 h2, of sample_host 1 "''number''"]
    by (simp add: Let_def)
qed

text \<open>
  C10: in the initial sort state (column \<open>-1\<close>, direction \<open>asc\<close>), \<open>sortTable\<close> with
  column index \<open>-1\<close> takes the same-column branch: the direction becomes \<open>desc\<close> and
  the remembered column stays \<open>-1\<close>.
\<close>

theorem sortTable_initial_minus_one:
  assumes "repos_table d = Some tbl" and "tbody tbl = Some rows"
    and "initial_sort_state d"
  shows "currentSortDirection (snd (sortTable H (- 1) dataType d)) = desc \<and>
         currentSortColumn (snd (sortTable H (- 1) dataType d)) = - 1"
  using assms
  by (simp add: sortTable_def Let_def initial_sort_state_def updateSortIndicators_def
           split: sum.splits)

theorem sortTable_initial_minus_one_witness:
  "repos_table sample_document = Some \<lparr>tbody = Some [0, 1, 2]\<rparr> \<and>
   tbody \<lparr>tbody = Some [0, 1, 2]\<rparr> = Some [0, 1, 2] \<and>
   initial_sort_state sample_document \<and>
   currentSortDirection (snd (sortTable sample_host (- 1) ''string'' sample_document)) = desc \<and>
   currentSortColumn (snd (sortTable sample_host (- 1) ''string'' sample_document)) = - 1"
proof -
  have h1: "repos_table sample_document = Some \<lparr>tbody = Some [0, 1, 2]\<rparr>"
    by (simp add: sample_document_def)
  have h2: "tbody \<lparr>tbody = Some [0, 1, 2]\<rparr> = Some [0, 1, 2]" by simp
  have h3: "initial_sort_state sample_document"
    by (simp add: initial_sort_state_def sample_document_def)
  show ?thesis
    using h1 h3 sortTable_initial_minus_one [OF h1 h2 h3, of sample_host "''string''"]
    by simp
qed

text \<open>
  C7: after every call of \<open>sortTable\<close>, whether it returns or throws, the rows under the
  table body are a permutation of the rows before, as addresses of the same row objects,
  and no row object has changed.
\<close>

theorem sortTable_permutes_rows:
  assumes "distinct (table_rows d)"
  shows "mset (table_rows (snd (sortTable H columnIndex dataType d))) = mset (table_rows d) \<and>
         row_at (snd (sortTable H columnIndex dataType d)) = row_at d"
proof (cases "repos_table d")
  case None
  then show ?thesis by (simp add: sortTable_def)
next
  case (Some tbl)
  show ?thesis
  proof (cases "tbody tbl")
    case None
    with Some show ?thesis by (simp add: sortTable_def)
  next
    case rows: (Some rows)
    define d1 where "d1 = (if currentSortColumn d = columnIndex
                         then d\<lparr>currentSortDirection :=
                                  (if currentSortDirection d = asc then desc else asc)\<rparr>
                         else d\<lparr>currentSortDirection := asc, currentSortColumn := columnIndex\<rparr>)"
    have d1: "row_at d1 = row_at d" "repos_table d1 = repos_table d"
      by (simp_all add: d1_def)
    have tr: "table_rows d = rows" using Some rows by (simp add: table_rows_def)
    show ?thesis
    proof (cases "Array_sort (compare_rows H d1 columnIndex dataType) rows")
      case (Inl e)
      have "sortTable H columnIndex dataType d = (Some e, d1)"
        unfolding sortTable_def Let_def d1_def [symmetric]
        by (simp add: Some rows Inl)
      then show ?thesis using d1 by (simp add: table_rows_def)
    next
      case (Inr sorted_rows)
      have perm: "mset sorted_rows = mset rows"
        by (rule mset_Array_sort [OF Inr])
      have moved: "fold appendChild sorted_rows rows = sorted_rows"
        using assms tr perm by (intro fold_appendChild_permutation) simp_all
      have "sortTable H columnIndex dataType d =
          (None, updateSortIndicators columnIndex
                   (d1\<lparr>repos_table := Some (tbl\<lparr>tbody := Some sorted_rows\<rparr>)\<rparr>))"
        unfolding sortTable_def Let_def d1_def [symmetric]
        by (simp add: Some rows Inr moved)
      then show ?thesis
        using d1 perm tr by (simp add: table_rows_def updateSortIndicators_def)
    qed
  qed
qed

lemma sample_first_sort:
  "table_rows (snd (sortTable sample_host 1 ''number'' sample_document)) = [0, 2, 1]"
  by code_simp

lemma sample_table_rows: "table_rows sample_document = [0, 1, 2]"
  by (simp add: table_rows_def sample_document_def)

theorem sortTable_permutes_rows_witness:
  "distinct (table_rows sample_document) \<and>
   table_rows sample_document = [0, 1, 2] \<and>
   table_rows (snd (sortTable sample_host 1 ''number'' sample_document)) = [0, 2, 1] \<and>
   mset (table_rows (snd (sortTable sample_host 1 ''number'' sample_document))) = mset [0, 1, 2] \<and>
   row_at (snd (sortTable sample_host 1 ''number'' sample_document)) = sample_rows"
proof -
  have h: "distinct (table_rows sample_document)"
    by (simp add: sample_table_rows)
  have r: "row_at sample_document = sample_rows" by (simp add: sample_document_def)
  show ?thesis
    using h r sortTable_permutes_rows [OF h, of sample_host 1 "''number''"]
    by (simp add: sample_table_rows sample_first_sort)
qed

lemma tied_values:
  "sort_value sample_host 0 ''string'' (row_at tied_document 0) = Inr (JString (units_of ''beta''))"
  "sort_value sample_host 0 ''string'' (row_at tied_document 1) = Inr (JString (units_of ''beta''))"
  by (simp_all add: sort_value_def tied_document_def tied_rows_def sample_row_def units_of_def
        toLowerCase_def latin1_def trim_def is_whitespace_def lower_unit_def is_upper_def)

lemma tied_order:
  "ascending sample_host 0 ''string'' (row_at tied_document) 0 1"
  "ascending sample_host 0 ''string'' (row_at tied_document) 1 0"
  by (simp_all add: ascending_def value_at_def tied_values del: One_nat_def)

text \<open>
  C4 does not hold when two rows tie: on the table whose two names differ in case and
  white space only, the first and the second call both leave the rows in the order
  \<open>[0, 1]\<close>, which is not its own reverse.
\<close>

theorem sortTable_twice_ties_counterexample:
  "table_rows (snd (sortTable sample_host 0 ''string'' tied_document)) = [0, 1] \<and>
   table_rows (snd (sortTable sample_host 0 ''string''
                 (snd (sortTable sample_host 0 ''string'' tied_document)))) = [0, 1] \<and>
   table_rows (snd (sortTable sample_host 0 ''string''
                 (snd (sortTable sample_host 0 ''string'' tied_document))))
     \<noteq> rev (table_rows (snd (sortTable sample_host 0 ''string'' tied_document)))"
proof -
  let ?up = "ascending sample_host 0 ''string'' (row_at tied_document)"
  have tbl: "repos_table tied_document = Some \<lparr>tbody = Some [0, 1]\<rparr>"
    "tbody \<lparr>tbody = Some [0, 1]\<rparr> = Some [0, 1]"
    by (simp_all add: tied_document_def)
  have ok: "\<forall>a \<in> set [0, 1]. \<exists>v. sort_value sample_host 0 ''string'' (row_at tied_document a) = Inr v"
    by (simp add: tied_values del: One_nat_def)
  have dir1: "asc = (if currentSortColumn tied_document = 0
                     then flip (currentSortDirection tied_document) else asc)"
    by (simp add: tied_document_def)
  have rows1: "[0, 1] = sort_by (in_direction asc ?up) [0, 1]"
    using tied_order by simp
  from sortTable_returns [OF tbl _ ok dir1 rows1]
  obtain d1 where d1: "sortTable sample_host 0 ''string'' tied_document = (None, d1)"
    "repos_table d1 = Some (\<lparr>tbody = Some [0, 1]\<rparr>\<lparr>tbody := Some [0, 1]\<rparr>)"
    "row_at d1 = row_at tied_document" "currentSortColumn d1 = 0" "currentSortDirection d1 = asc"
    by auto
  have tbl': "repos_table d1 = Some \<lparr>tbody = Some [0, 1]\<rparr>"
    using d1(2) by simp
  have ok': "\<forall>a \<in> set [0, 1]. \<exists>v. sort_value sample_host 0 ''string'' (row_at d1 a) = Inr v"
    using ok d1(3) by simp
  have dir2: "desc = (if currentSortColumn d1 = 0 then flip (currentSortDirection d1) else asc)"
    using d1(4,5) by simp
  have rows2: "[0, 1] = sort_by (in_direction desc (ascending sample_host 0 ''string'' (row_at d1))) [0, 1]"
    using tied_order d1(3) by simp
  from sortTable_returns [OF tbl' tbl(2) _ ok' dir2 rows2]
  obtain d2 where d2: "sortTable sample_host 0 ''string'' d1 = (None, d2)"
    "repos_table d2 = Some (\<lparr>tbody = Some [0, 1]\<rparr>\<lparr>tbody := Some [0, 1]\<rparr>)"
    by auto
  show ?thesis
    using d1(1) tbl' d2 by (simp add: table_rows_def)
qed

lemma sample_values:
  "sort_value sample_host 1 ''number'' (row_at sample_document 0) = Inr (JNumber (Num 100))"
  "sort_value sample_host 1 ''number'' (row_at sample_document 1) = Inr (JNumber (Num 300))"
  "sort_value sample_host 1 ''number'' (row_at sample_document 2) = Inr (JNumber (Num 200))"
  by (simp_all add: sort_value_def sample_document_def sample_rows_def sample_row_def
        sample_host_def decimal_def unsigned_decimal_def units_of_def)

theorem sortTable_three_calls_witness:
  "repos_table sample_document = Some \<lparr>tbody = Some [0, 1, 2]\<rparr> \<and>
   tbody \<lparr>tbody = Some [0, 1, 2]\<rparr> = Some [0, 1, 2] \<and>
   distinct [0, 1, 2 :: nat] \<and>
   sort_value sample_host 1 ''number'' (row_at sample_document 0) = Inr (JNumber (Num 100)) \<and>
   sort_value sample_host 1 ''number'' (row_at sample_document 1) = Inr (JNumber (Num 300)) \<and>
   sort_value sample_host 1 ''number'' (row_at sample_document 2) = Inr (JNumber (Num 200)) \<and>
   fst (sortTable sample_host 1 ''number'' sample_document) = None \<and>
   fst (sortTable sample_host 1 ''number''
     (snd (sortTable sample_host 1 ''number'' sample_document))) = None \<and>
   fst (sortTable sample_host 1 ''number''
     (snd (sortTable sample_host 1 ''number''
       (snd (sortTable sample_host 1 ''number'' sample_document))))) = None \<and>
   table_rows (snd (sortTable sample_host 1 ''number'' sample_document)) = [0, 2, 1] \<and>
   table_rows (snd (sortTable sample_host 1 ''number''
     (snd (sortTable sample_host 1 ''number'' sample_document)))) = [1, 2, 0] \<and>
   table_rows (snd (sortTable sample_host 1 ''number''
     (snd (sortTable sample_host 1 ''number''
       (snd (sortTable sample_host 1 ''number'' sample_document)))))) = [0, 2, 1]"
proof -
  have h1: "repos_table sample_document = Some \<lparr>tbody = Some [0, 1, 2]\<rparr>"
    by (simp add: sample_document_def)
  have h2: "tbody \<lparr>tbody = Some [0, 1, 2]\<rparr> = Some [0, 1, 2]" by simp
  have h3: "distinct [0, 1, 2 :: nat]" by simp
  have h4: "\<forall>a \<in> set [0, 1, 2].
      \<exists>v. sort_value sample_host 1 ''number'' (row_at sample_document a) = Inr v \<and> v \<noteq> JNumber NaN"
    by (simp add: sample_values del: One_nat_def)
  have noties: "\<forall>a \<in> set [0, 1, 2]. \<forall>b \<in> set [0, 1, 2]. a \<noteq> b \<longrightarrow>
      sort_value sample_host 1 ''number'' (row_at sample_document a)
        \<noteq> sort_value sample_host 1 ''number'' (row_at sample_document b)"
    by (simp add: sample_values del: One_nat_def)
  note three = sortTable_three_calls [OF h1 h2 h3 h4, unfolded Let_def]
  have returns:
    "fst (sortTable sample_host 1 ''number'' sample_document) = None"
    "fst (sortTable sample_host 1 ''number''
       (snd (sortTable sample_host 1 ''number'' sample_document))) = None"
    "fst (sortTable sample_host 1 ''number''
       (snd (sortTable sample_host 1 ''number''
         (snd (sortTable sample_host 1 ''number'' sample_document))))) = None"
    using three by blast+
  have third: "table_rows (snd (sortTable sample_host 1 ''number''
     (snd (sortTable sample_host 1 ''number''
       (snd (sortTable sample_host 1 ''number'' sample_document)))))) = [0, 2, 1]"
    using three sample_first_sort by simp
  have second: "table_rows (snd (sortTable sample_host 1 ''number''
     (snd (sortTable sample_host 1 ''number'' sample_document)))) = [1, 2, 0]"
    using three noties sample_first_sort by simp
  show ?thesis
    using h1 sample_values sample_first_sort returns second third by simp
qed


end
